theory Spec2Isabelle
  imports Main "HOL-Library.Word"
begin

unbundle bit_operations_syntax

section \<open>The NOVA slab allocator (slab.cpp)\<close>

text \<open>
  The allocator is modelled on a 64-bit platform: addresses, \<open>mword\<close> and
  \<open>unsigned long\<close> are 64-bit words, the null pointer is the address 0.
  The heap is an explicit store: \<open>slabs\<close> maps the address of every constructed
  \<open>Slab\<close> object to its fields, \<open>mem\<close> holds the pointer-sized words that the
  code writes into the rest of a page (the free-list link fields).  Every access
  through a pointer that does not designate a \<open>Slab\<close> object (the null pointer in
  particular) is the error \<open>Fault\<close>; a failing \<open>assert\<close> is \<open>AssertFailed\<close>.
  The spin lock is not modelled: calls are executed one after the other.
\<close>

type_synonym mword = "64 word"
type_synonym addr = "64 word"

datatype error = Fault | AssertFailed | BackingMemoryExhausted | DivideByZero | InvalidRelease

text \<open>
  Modelled from the spec: the header \<open>slab.h\<close> and the platform headers are not part of
  the sources.  The page size is the 4096 of the spec's scenario, \<open>PAGE_MASK\<close> selects
  the page-offset bits, \<open>sizeof (mword)\<close> is the platform word size (8 bytes), and the
  \<open>Slab\<close> header consists of the five word-sized members that the constructor
  initialises (avail, cache, prev, next, head).
\<close>

definition PAGE_SIZE :: mword where
  "PAGE_SIZE = 4096"

definition PAGE_MASK :: mword where
  "PAGE_MASK = PAGE_SIZE - 1"

definition sizeof_mword :: mword where
  "sizeof_mword = 8"

definition sizeof_Slab :: mword where
  "sizeof_Slab = 5 * sizeof_mword"

text \<open>
  Modelled from the spec: \<open>align_up\<close> (bits.h) is not part of the sources; the spec says
  that it rounds its first argument up to a multiple of the second.  The arithmetic is
  that of \<open>unsigned long\<close>.
\<close>

definition align_up :: "mword \<Rightarrow> mword \<Rightarrow> mword" where
  "align_up val align = ((val + (align - 1)) div align) * align"

subsection \<open>Data\<close>

text \<open>
  \<open>class Slab\<close>.  The member \<open>cache\<close> is not represented: the model holds one cache,
  and \<open>cache->size\<close>, \<open>cache->buff\<close>, \<open>cache->elem\<close> are read from it.
\<close>

record slab =
  s_avail :: mword
  s_prev :: addr
  s_next :: addr
  s_head :: addr

text \<open>
  \<open>class Slab_cache\<close> (members curr, head, size, buff, elem) together with the store
  and the page provider.  \<open>pages\<close> is the sequence of page addresses that
  \<open>operator new\<close> of \<open>Slab\<close> will hand out; the provider is exhausted when the list is
  empty.  The members \<open>name\<close>, \<open>lock\<close> and the registry link are not represented.
\<close>

record state =
  c_curr :: addr
  c_head :: addr
  c_size :: mword
  c_buff :: mword
  c_elem :: mword
  slabs :: "addr \<Rightarrow> slab option"
  mem :: "addr \<Rightarrow> addr"
  pages :: "addr list"

definition bindE :: "error + 'a \<Rightarrow> ('a \<Rightarrow> error + 'b) \<Rightarrow> error + 'b" where
  "bindE m f = (case m of Inl e \<Rightarrow> Inl e | Inr x \<Rightarrow> f x)"

text \<open>Reading and writing the members of the \<open>Slab\<close> object at an address.\<close>

definition rd :: "state \<Rightarrow> addr \<Rightarrow> error + slab" where
  "rd s a = (case slabs s a of None \<Rightarrow> Inl Fault | Some sl \<Rightarrow> Inr sl)"

definition set_prev :: "addr \<Rightarrow> addr \<Rightarrow> state \<Rightarrow> error + state" where
  "set_prev a v s = (case slabs s a of None \<Rightarrow> Inl Fault
     | Some sl \<Rightarrow> Inr (s\<lparr>slabs := (slabs s)(a \<mapsto> sl\<lparr>s_prev := v\<rparr>)\<rparr>))"

definition set_next :: "addr \<Rightarrow> addr \<Rightarrow> state \<Rightarrow> error + state" where
  "set_next a v s = (case slabs s a of None \<Rightarrow> Inl Fault
     | Some sl \<Rightarrow> Inr (s\<lparr>slabs := (slabs s)(a \<mapsto> sl\<lparr>s_next := v\<rparr>)\<rparr>))"

text \<open>
  Modelled from the spec: \<open>Slab::full\<close> and \<open>Slab::empty\<close> are declared in slab.h, which
  is not part of the sources; the spec defines FULL as \<open>free_count == 0\<close> and EMPTY as
  \<open>free_count == capacity\<close>.
\<close>

definition full :: "slab \<Rightarrow> bool" where
  "full sl \<longleftrightarrow> s_avail sl = 0"

definition empty_slab :: "state \<Rightarrow> slab \<Rightarrow> bool" where
  "empty_slab s sl \<longleftrightarrow> s_avail sl = c_elem s"

subsection \<open>Slab\<close>

text \<open>
  The formatting loop of the constructor:
  \<open>for (i = avail; i; i--, link -= cache->buff) { *link = head; head = link; }\<close>
\<close>

function format :: "mword \<Rightarrow> addr \<Rightarrow> mword \<Rightarrow> addr \<Rightarrow> (addr \<Rightarrow> addr) \<Rightarrow> addr \<times> (addr \<Rightarrow> addr)" where
  "format i link buff h m =
     (if i = 0 then (h, m) else format (i - 1) (link - buff) buff link (m(link := h)))"
  by pat_completeness auto
termination
  by (relation "measure (\<lambda>(i, link, buff, h, m). unat i)") (auto simp: measure_unat)

declare format.simps [simp del]

text \<open>\<open>Slab::Slab\<close>, run on the page at address \<open>this\<close>.\<close>

definition Slab :: "addr \<Rightarrow> state \<Rightarrow> state" where
  "Slab this s =
     (let link = this + PAGE_SIZE - c_buff s + c_size s;
          r = format (c_elem s) link (c_buff s) 0 (mem s)
      in s\<lparr>slabs := (slabs s)(this \<mapsto> \<lparr>s_avail = c_elem s, s_prev = 0, s_next = 0, s_head = fst r\<rparr>),
           mem := snd r\<rparr>)"

text \<open>
  \<open>new Slab (cache)\<close>: \<open>operator new\<close> takes one page from the page provider, then the
  constructor runs on it.  Modelled from the spec: the provider (the buddy allocator) is
  not part of the sources; its exhaustion is fatal.
\<close>

definition new_Slab :: "state \<Rightarrow> error + addr \<times> state" where
  "new_Slab s = (case pages s of [] \<Rightarrow> Inl BackingMemoryExhausted
     | pg # rest \<Rightarrow> Inr (pg, Slab pg (s\<lparr>pages := rest\<rparr>)))"

text \<open>\<open>Slab::alloc\<close> on the slab at address \<open>this\<close>; reading \<open>*head\<close> faults on null.\<close>

definition Slab_alloc :: "addr \<Rightarrow> state \<Rightarrow> error + addr \<times> state" where
  "Slab_alloc this s = bindE (rd s this) (\<lambda>sl.
     if s_head sl = 0 then Inl Fault
     else Inr (s_head sl - c_size s,
               s\<lparr>slabs := (slabs s)(this \<mapsto> sl\<lparr>s_avail := s_avail sl - 1, s_head := mem s (s_head sl)\<rparr>)\<rparr>))"

text \<open>\<open>Slab::free\<close> on the slab at address \<open>this\<close>.\<close>

definition Slab_free :: "addr \<Rightarrow> addr \<Rightarrow> state \<Rightarrow> error + state" where
  "Slab_free this ptr s = bindE (rd s this) (\<lambda>sl.
     let link = ptr + c_size s
     in Inr (s\<lparr>slabs := (slabs s)(this \<mapsto> sl\<lparr>s_avail := s_avail sl + 1, s_head := link\<rparr>),
               mem := (mem s)(link := s_head sl)\<rparr>))"

subsection \<open>Slab_cache\<close>

text \<open>
  \<open>Slab_cache::Slab_cache\<close>.  The third argument is the supply of the page provider.
  A zero \<open>buff\<close> makes the division that computes \<open>elem\<close> trap.
\<close>

definition Slab_cache :: "mword \<Rightarrow> 32 word \<Rightarrow> addr list \<Rightarrow> error + state" where
  "Slab_cache elem_size elem_align pgs =
     (let size = align_up elem_size sizeof_mword;
          buff = align_up (size + sizeof_mword) (ucast elem_align)
      in if buff = 0 then Inl DivideByZero
         else Inr \<lparr>c_curr = 0, c_head = 0, c_size = size, c_buff = buff,
                   c_elem = (PAGE_SIZE - sizeof_Slab) div buff,
                   slabs = Map.empty, mem = (\<lambda>a. 0), pages = pgs\<rparr>)"

text \<open>\<open>Slab_cache::grow\<close>.\<close>

definition grow :: "state \<Rightarrow> error + state" where
  "grow s = bindE (new_Slab s) (\<lambda>(slab, s1).
     bindE (if c_head s1 \<noteq> 0 then set_prev (c_head s1) slab s1 else Inr s1) (\<lambda>s2.
     bindE (set_next slab (c_head s2) s2) (\<lambda>s3.
     Inr (s3\<lparr>c_head := slab, c_curr := slab\<rparr>))))"

text \<open>
  \<open>Slab_cache::alloc\<close>.  \<open>alloc_enter\<close> is the part up to the two assertions; the slab
  that serves the call is \<open>curr\<close> at that point.
\<close>

definition alloc_enter :: "state \<Rightarrow> error + state" where
  "alloc_enter s = bindE (if c_curr s = 0 then grow s else Inr s) (\<lambda>s1.
     bindE (rd s1 (c_curr s1)) (\<lambda>c.
     if full c then Inl AssertFailed
     else bindE (if s_next c = 0 then Inr True
                 else bindE (rd s1 (s_next c)) (\<lambda>n. Inr (full n))) (\<lambda>ok.
          if ok then Inr s1 else Inl AssertFailed)))"

definition alloc :: "state \<Rightarrow> error + addr \<times> state" where
  "alloc s = bindE (alloc_enter s) (\<lambda>s1.
     bindE (Slab_alloc (c_curr s1) s1) (\<lambda>(ret, s2).
     bindE (rd s2 (c_curr s2)) (\<lambda>c.
     Inr (ret, if full c then s2\<lparr>c_curr := s_prev c\<rparr> else s2))))"

text \<open>
  The three relinking blocks of \<open>Slab_cache::free\<close>.

  Dequeue: \<open>slab->prev->next = slab->next; if (slab->next) slab->next->prev = slab->prev;\<close>
\<close>

definition dequeue :: "addr \<Rightarrow> state \<Rightarrow> error + state" where
  "dequeue slab s = bindE (rd s slab) (\<lambda>sl.
     bindE (set_next (s_prev sl) (s_next sl) s) (\<lambda>s1.
     bindE (rd s1 slab) (\<lambda>sl1.
     if s_next sl1 \<noteq> 0 then set_prev (s_next sl1) (s_prev sl1) s1 else Inr s1)))"

text \<open>
  Enqueue after curr:
  \<open>slab->prev = curr; slab->next = curr->next; curr->next = curr->next->prev = slab;\<close>
  The inner assignment of the last statement is evaluated first.
\<close>

definition enqueue_after_curr :: "addr \<Rightarrow> state \<Rightarrow> error + state" where
  "enqueue_after_curr slab s = bindE (set_prev slab (c_curr s) s) (\<lambda>s1.
     bindE (rd s1 (c_curr s1)) (\<lambda>c.
     bindE (set_next slab (s_next c) s1) (\<lambda>s2.
     bindE (rd s2 (c_curr s2)) (\<lambda>c2.
     bindE (set_prev (s_next c2) slab s2) (\<lambda>s3.
     set_next (c_curr s3) slab s3)))))"

text \<open>
  Enqueue as head:
  \<open>slab->prev = nullptr; slab->next = head; head = head->prev = slab;\<close>
\<close>

definition enqueue_as_head :: "addr \<Rightarrow> state \<Rightarrow> error + state" where
  "enqueue_as_head slab s = bindE (set_prev slab 0 s) (\<lambda>s1.
     bindE (set_next slab (c_head s1) s1) (\<lambda>s2.
     bindE (set_prev (c_head s2) slab s2) (\<lambda>s3.
     Inr (s3\<lparr>c_head := slab\<rparr>))))"

text \<open>
  The two tests \<open>slab->prev && slab->prev->full()\<close> and
  \<open>slab->prev && !slab->prev->empty()\<close>.
\<close>

definition prev_full :: "addr \<Rightarrow> state \<Rightarrow> error + bool" where
  "prev_full slab s = bindE (rd s slab) (\<lambda>sl.
     if s_prev sl = 0 then Inr False else bindE (rd s (s_prev sl)) (\<lambda>p. Inr (full p)))"

definition prev_not_empty :: "addr \<Rightarrow> state \<Rightarrow> error + bool" where
  "prev_not_empty slab s = bindE (rd s slab) (\<lambda>sl.
     if s_prev sl = 0 then Inr False
     else bindE (rd s (s_prev sl)) (\<lambda>p. Inr (\<not> empty_slab s p)))"

text \<open>\<open>Slab_cache::free\<close>.\<close>

definition free :: "addr \<Rightarrow> state \<Rightarrow> error + state" where
  "free ptr s =
     (let slab = ptr AND NOT PAGE_MASK in
      bindE (rd s slab) (\<lambda>sl0.
      let was_full = full sl0 in
      bindE (Slab_free slab ptr s) (\<lambda>s1.
      if was_full then
        bindE (prev_full slab s1) (\<lambda>requeue.
        bindE (if requeue then
                 bindE (dequeue slab s1) (\<lambda>s2.
                 if c_curr s2 \<noteq> 0 then enqueue_after_curr slab s2
                 else enqueue_as_head slab s2)
               else Inr s1) (\<lambda>s3.
        Inr (s3\<lparr>c_curr := slab\<rparr>)))
      else
        bindE (rd s1 slab) (\<lambda>sl.
        if empty_slab s1 sl then
          bindE (prev_not_empty slab s1) (\<lambda>requeue.
          if requeue then
            bindE (if slab = c_curr s1 then Inr (s1\<lparr>c_curr := s_prev sl\<rparr>) else Inr s1) (\<lambda>s2.
            bindE (dequeue slab s2) (\<lambda>s3.
            enqueue_as_head slab s3))
          else Inr s1)
        else Inr s1))))"

text \<open>
  The loop of \<open>Slab_cache::print_stats\<close>,
  \<open>for (Slab *s = head; s; s = s->next) { slabs++; objs += elem - s->avail; }\<close>,
  returning the two counters.  The loop does not end on a cyclic list.
\<close>

partial_function (option) stats_loop :: "state \<Rightarrow> addr \<Rightarrow> mword \<Rightarrow> mword \<Rightarrow> (error + mword \<times> mword) option" where
  "stats_loop st s n objs =
     (if s = 0 then Some (Inr (n, objs))
      else case slabs st s of None \<Rightarrow> Some (Inl Fault)
           | Some sl \<Rightarrow> stats_loop st (s_next sl) (n + 1) (objs + (c_elem st - s_avail sl)))"

definition print_stats :: "state \<Rightarrow> (error + mword \<times> mword) option" where
  "print_stats st = stats_loop st (c_head st) 0 0"

subsection \<open>Call sequences\<close>

text \<open>
  A client issues \<open>alloc\<close> and \<open>free\<close> calls.  Beside the machine state the harness keeps
  the list of live pointers, each with the slab that served it.  Releasing a pointer
  that is not live violates the precondition of \<open>free\<close>; the allocator does not detect
  it, the harness does and stops with \<open>InvalidRelease\<close>.
\<close>

datatype call = Allocate | Release addr

type_synonym live = "(addr \<times> addr) list"

definition step :: "call \<Rightarrow> state \<times> live \<Rightarrow> error + state \<times> live" where
  "step c x = (case x of (s, lv) \<Rightarrow>
     (case c of
        Allocate \<Rightarrow>
          bindE (alloc_enter s) (\<lambda>s1.
          bindE (alloc s) (\<lambda>(p, s').
          Inr (s', (p, c_curr s1) # lv)))
      | Release p \<Rightarrow>
          if p \<in> fst ` set lv
          then bindE (free p s) (\<lambda>s'. Inr (s', filter (\<lambda>e. fst e \<noteq> p) lv))
          else Inl InvalidRelease))"

fun run :: "call list \<Rightarrow> state \<times> live \<Rightarrow> error + state \<times> live" where
  "run [] x = Inr x"
| "run (c # cs) x = bindE (step c x) (run cs)"

text \<open>A fresh cache and the calls issued on it.\<close>

definition session :: "mword \<Rightarrow> 32 word \<Rightarrow> addr list \<Rightarrow> call list \<Rightarrow> error + state \<times> live" where
  "session elem_size elem_align pgs cs =
     bindE (Slab_cache elem_size elem_align pgs) (\<lambda>s0. run cs (s0, []))"

section \<open>Call sequences on a fresh cache\<close>

text \<open>The number of \<open>alloc\<close> and of \<open>free\<close> calls in a sequence.\<close>

definition n_alloc :: "call list \<Rightarrow> nat" where
  "n_alloc cs = length (filter (\<lambda>c. c = Allocate) cs)"

definition n_release :: "call list \<Rightarrow> nat" where
  "n_release cs = length (filter (\<lambda>c. c \<noteq> Allocate) cs)"

text \<open>
  The state and the live pointers a session ends with (meaningful when it did not fail).
\<close>

definition after :: "mword \<Rightarrow> 32 word \<Rightarrow> addr list \<Rightarrow> call list \<Rightarrow> state" where
  "after elem_size elem_align pgs cs = fst (projr (session elem_size elem_align pgs cs))"

definition live_after :: "mword \<Rightarrow> 32 word \<Rightarrow> addr list \<Rightarrow> call list \<Rightarrow> live" where
  "live_after elem_size elem_align pgs cs = snd (projr (session elem_size elem_align pgs cs))"

text \<open>
  The page provider's contract: the pages handed out are page-aligned, not null and
  pairwise different.
\<close>

definition aligned :: "addr \<Rightarrow> bool" where
  "aligned a \<longleftrightarrow> a AND PAGE_MASK = 0"

definition pages_ok :: "addr list \<Rightarrow> bool" where
  "pages_ok pgs \<longleftrightarrow> distinct pgs \<and> (\<forall>p\<in>set pgs. aligned p \<and> p \<noteq> 0)"

text \<open>
  Construction parameters for which at least one buffer fits into a page after the
  \<open>Slab\<close> header: both roundings add less than 8 and less than \<open>elem_align\<close>.
\<close>

definition fits :: "mword \<Rightarrow> 32 word \<Rightarrow> bool" where
  "fits elem_size elem_align \<longleftrightarrow> elem_align \<noteq> 0 \<and> unat elem_size + unat elem_align \<le> 4042"

text \<open>The sanity of the three derived sizes: the link field fits behind the object, the
  capacity is not zero and the buffers fit into the page behind the header.\<close>

definition cfg_ok :: "state \<Rightarrow> bool" where
  "cfg_ok s \<longleftrightarrow> unat (c_size s) + 8 \<le> unat (c_buff s) \<and> c_elem s \<noteq> 0 \<and>
     unat (c_elem s) * unat (c_buff s) \<le> 4056"

text \<open>
  The traversal of \<open>print_stats\<close>, \<open>for (Slab *s = head; s; s = s->next)\<close>, collecting the
  slabs it visits: the snapshot of the list, from the front.
\<close>

partial_function (option) scan :: "state \<Rightarrow> addr \<Rightarrow> addr list \<Rightarrow> (error + addr list) option" where
  "scan st s acc =
     (if s = 0 then Some (Inr acc)
      else case slabs st s of None \<Rightarrow> Some (Inl Fault)
           | Some sl \<Rightarrow> scan st (s_next sl) (acc @ [s]))"

declare scan.simps [code]

declare stats_loop.simps [code]

text \<open>FULL and EMPTY for the slab at an address.\<close>

definition is_full :: "state \<Rightarrow> addr \<Rightarrow> bool" where
  "is_full s a = (case slabs s a of None \<Rightarrow> False | Some sl \<Rightarrow> full sl)"

definition is_empty :: "state \<Rightarrow> addr \<Rightarrow> bool" where
  "is_empty s a = (case slabs s a of None \<Rightarrow> False | Some sl \<Rightarrow> empty_slab s sl)"

text \<open>
  The cursor condition: \<open>curr\<close> is null, or it is not FULL and its neighbour on the given
  side is null or FULL.  The code asserts it for \<open>s_next\<close>.
\<close>

definition cursor_inv :: "(slab \<Rightarrow> addr) \<Rightarrow> state \<Rightarrow> bool" where
  "cursor_inv side s \<longleftrightarrow> c_curr s = 0 \<or> \<not> is_full s (c_curr s) \<and>
     (case slabs s (c_curr s) of None \<Rightarrow> False
      | Some c \<Rightarrow> side c = 0 \<or> is_full s (side c))"

text \<open>\<open>n\<close> successive \<open>Slab::alloc\<close> calls on one slab.\<close>

fun Slab_allocs :: "nat \<Rightarrow> addr \<Rightarrow> state \<Rightarrow> error + addr list \<times> state" where
  "Slab_allocs 0 this s = Inr ([], s)"
| "Slab_allocs (Suc n) this s =
     bindE (Slab_alloc this s) (\<lambda>(p, s1).
     bindE (Slab_allocs n this s1) (\<lambda>(ps, s2). Inr (p # ps, s2)))"

text \<open>
  Concrete inputs: three pages, and on a cache of capacity 2 (element size 2000) five
  allocations, which fill two slabs and open a third, followed by the release of both
  objects of the first slab; then, in addition, the release of both objects of the
  second slab.
\<close>

definition demo_pages :: "addr list" where
  "demo_pages = [0x10000, 0x20000, 0x30000]"

definition demo_calls :: "call list" where
  "demo_calls = [Allocate, Allocate, Allocate, Allocate, Allocate, Release 0x10050, Release 0x10828]"

definition demo_calls2 :: "call list" where
  "demo_calls2 = demo_calls @ [Release 0x20050, Release 0x20828]"

section \<open>The abstraction used in the proofs\<close>

subsection \<open>The slab list\<close>

text \<open>
  The list of slab addresses from \<open>head\<close> along \<open>next\<close>.  \<open>succ_of\<close> and \<open>pred_of\<close> give
  the neighbours of an element of a duplicate-free list, 0 at the ends.
\<close>

definition hd0 :: "addr list \<Rightarrow> addr" where
  "hd0 xs = (case xs of [] \<Rightarrow> 0 | x # _ \<Rightarrow> x)"

definition last0 :: "addr list \<Rightarrow> addr" where
  "last0 xs = (if xs = [] then 0 else last xs)"

fun succ_of :: "addr list \<Rightarrow> addr \<Rightarrow> addr" where
  "succ_of [] x = 0"
| "succ_of (y # ys) x = (if x = y then hd0 ys else succ_of ys x)"

fun pred_of :: "addr list \<Rightarrow> addr \<Rightarrow> addr" where
  "pred_of [] x = 0"
| "pred_of (y # ys) x = (if ys \<noteq> [] \<and> x = hd ys then y else pred_of ys x)"

text \<open>The members of the slab at an address, 0 where there is none.\<close>

definition nxt :: "state \<Rightarrow> addr \<Rightarrow> addr" where
  "nxt s a = (case slabs s a of None \<Rightarrow> 0 | Some sl \<Rightarrow> s_next sl)"

definition prv :: "state \<Rightarrow> addr \<Rightarrow> addr" where
  "prv s a = (case slabs s a of None \<Rightarrow> 0 | Some sl \<Rightarrow> s_prev sl)"

definition avl :: "state \<Rightarrow> addr \<Rightarrow> mword" where
  "avl s a = (case slabs s a of None \<Rightarrow> 0 | Some sl \<Rightarrow> s_avail sl)"

definition fhd :: "state \<Rightarrow> addr \<Rightarrow> addr" where
  "fhd s a = (case slabs s a of None \<Rightarrow> 0 | Some sl \<Rightarrow> s_head sl)"

text \<open>
  \<open>wf_list s xs\<close>: the store holds the doubly-linked, null-terminated list \<open>xs\<close>, starting at
  \<open>head\<close>.  \<open>relinked\<close>: two states differ in link members and cursors only.
\<close>

definition wf_list :: "state \<Rightarrow> addr list \<Rightarrow> bool" where
  "wf_list s xs \<longleftrightarrow> distinct xs \<and> 0 \<notin> set xs \<and> c_head s = hd0 xs \<and>
     (\<forall>x\<in>set xs. x \<in> dom (slabs s) \<and> nxt s x = succ_of xs x \<and> prv s x = pred_of xs x)"

definition relinked :: "state \<Rightarrow> state \<Rightarrow> bool" where
  "relinked s s' \<longleftrightarrow> c_size s' = c_size s \<and> c_buff s' = c_buff s \<and> c_elem s' = c_elem s \<and>
     mem s' = mem s \<and> pages s' = pages s \<and> dom (slabs s') = dom (slabs s) \<and>
     avl s' = avl s \<and> fhd s' = fhd s"

subsection \<open>The buffers of a slab\<close>

text \<open>
  The slab that the release path computes from a pointer, the \<open>k\<close>-th buffer of the page
  at \<open>a\<close> (counted from the end of the page) and the set of all its buffers.
\<close>

definition slab_of :: "addr \<Rightarrow> addr" where
  "slab_of p = p AND NOT PAGE_MASK"

definition buf :: "state \<Rightarrow> addr \<Rightarrow> nat \<Rightarrow> addr" where
  "buf s a k = a + PAGE_SIZE - of_nat (Suc k) * c_buff s"

definition bufs :: "state \<Rightarrow> addr \<Rightarrow> addr set" where
  "bufs s a = buf s a ` {..< unat (c_elem s)}"

text \<open>
  \<open>chain m h ls\<close>: following the link words from \<open>h\<close> visits exactly \<open>ls\<close> and ends at null.
  \<open>slab_inv\<close>: the free list of a slab consists of \<open>avail\<close> different buffers of its page,
  and the other buffers of the page are exactly the live pointers it served.
  \<open>touched a\<close>: two states differ in \<open>avail\<close> and \<open>head\<close> of slab \<open>a\<close> and in memory only.
\<close>

fun chain :: "(addr \<Rightarrow> addr) \<Rightarrow> addr \<Rightarrow> addr list \<Rightarrow> bool" where
  "chain m h [] \<longleftrightarrow> h = 0"
| "chain m h (l # ls) \<longleftrightarrow> h = l \<and> l \<noteq> 0 \<and> chain m (m l) ls"

definition live_in :: "live \<Rightarrow> addr \<Rightarrow> addr set" where
  "live_in lv a = {p. (p, a) \<in> set lv}"

definition slab_inv :: "state \<Rightarrow> live \<Rightarrow> addr \<Rightarrow> bool" where
  "slab_inv s lv a \<longleftrightarrow> (\<exists>fp. chain (mem s) (fhd s a) (map (\<lambda>p. p + c_size s) fp) \<and> distinct fp \<and>
      length fp = unat (avl s a) \<and> set fp \<union> live_in lv a = bufs s a \<and> set fp \<inter> live_in lv a = {})"

definition touched :: "addr \<Rightarrow> state \<Rightarrow> state \<Rightarrow> bool" where
  "touched a s s' \<longleftrightarrow> c_size s' = c_size s \<and> c_buff s' = c_buff s \<and> c_elem s' = c_elem s \<and>
     c_curr s' = c_curr s \<and> c_head s' = c_head s \<and> pages s' = pages s \<and>
     dom (slabs s') = dom (slabs s) \<and> nxt s' = nxt s \<and> prv s' = prv s \<and>
     (\<forall>b. b \<noteq> a \<longrightarrow> avl s' b = avl s b \<and> fhd s' b = fhd s b)"

subsection \<open>The invariant\<close>

text \<open>
  \<open>core\<close> collects the facts that do not depend on the order of the list; \<open>used\<close> is the
  number of allocated buffers of a slab.  \<open>ordered\<close>: along the list EMPTY slabs (rank 0)
  come before PARTIAL ones (rank 1) before FULL ones (rank 2), and \<open>curr\<close> is the last
  slab that is not FULL, null when there is none.
\<close>

definition used :: "state \<Rightarrow> addr \<Rightarrow> nat" where
  "used s a = unat (c_elem s) - unat (avl s a)"

definition core :: "state \<Rightarrow> live \<Rightarrow> addr list \<Rightarrow> bool" where
  "core s lv xs \<longleftrightarrow> cfg_ok s \<and> wf_list s xs \<and> (\<forall>a\<in>set xs. aligned a) \<and>
     pages_ok (pages s) \<and> set (pages s) \<inter> set xs = {} \<and>
     (\<forall>a\<in>set xs. slab_inv s lv a) \<and> snd ` set lv \<subseteq> set xs \<and> distinct (map fst lv) \<and>
     sum (used s) (set xs) = length lv"

definition rk :: "state \<Rightarrow> addr \<Rightarrow> nat" where
  "rk s x = (if avl s x = c_elem s then 0 else if avl s x = 0 then 2 else 1)"

definition ordered :: "state \<Rightarrow> addr list \<Rightarrow> bool" where
  "ordered s xs \<longleftrightarrow> sorted (map (rk s) xs) \<and>
     (\<exists>A F. xs = A @ F \<and> (\<forall>x\<in>set A. avl s x \<noteq> 0) \<and> (\<forall>x\<in>set F. avl s x = 0) \<and>
        c_curr s = last0 A)"

definition Inv :: "state \<Rightarrow> live \<Rightarrow> bool" where
  "Inv s lv \<longleftrightarrow> (\<exists>xs. core s lv xs \<and> ordered s xs)"

section \<open>Lists and their neighbours\<close>

lemma hd0_simps [simp]: "hd0 [] = 0" "hd0 (x # xs) = x"
  by (simp_all add: hd0_def)

lemma last0_simps [simp]: "last0 [] = 0" "last0 (xs @ [x]) = x"
  by (simp_all add: last0_def)

lemma last0_Cons: "last0 (x # xs) = (if xs = [] then x else last0 xs)"
  by (simp add: last0_def)

lemma hd0_append: "hd0 (xs @ ys) = (if xs = [] then hd0 ys else hd0 xs)"
  by (cases xs) simp_all

lemma last0_append: "last0 (xs @ ys) = (if ys = [] then last0 xs else last0 ys)"
  by (simp add: last0_def)

lemma succ_of_notin: "x \<notin> set xs \<Longrightarrow> succ_of xs x = 0"
  by (induction xs) auto

lemma pred_of_notin: "x \<notin> set xs \<Longrightarrow> pred_of xs x = 0"
  by (induction xs) auto

lemma succ_of_append:
  "distinct (xs @ ys) \<Longrightarrow> succ_of (xs @ ys) x =
     (if x \<in> set xs then (if x = last xs then hd0 ys else succ_of xs x) else succ_of ys x)"
proof (induction xs)
  case Nil
  then show ?case by simp
next
  case (Cons a xs)
  then show ?case
    by (cases xs) (auto simp: hd0_append)
qed

lemma pred_of_Cons_notin: "x \<notin> set ys \<Longrightarrow> pred_of (y # ys) x = 0"
  by (cases ys) (auto simp: pred_of_notin)

lemma pred_of_append:
  "distinct (xs @ ys) \<Longrightarrow> pred_of (xs @ ys) x =
     (if x \<in> set ys then (if x = hd ys then last0 xs else pred_of ys x) else pred_of xs x)"
proof (induction xs)
  case Nil
  then show ?case by (cases ys) (auto simp: pred_of_notin)
next
  case (Cons a xs)
  have d: "distinct (xs @ ys)" using Cons.prems by simp
  note IH = Cons.IH [OF d]
  show ?case
  proof (cases xs)
    case Nil
    then show ?thesis using Cons.prems by (cases ys) (auto simp: pred_of_notin last0_Cons)
  next
    case (Cons b bs)
    have l: "last0 (a # xs) = last0 xs" using Cons by (simp add: last0_Cons)
    have b: "b \<notin> set ys" using Cons Cons.prems by auto
    have "pred_of ((a # xs) @ ys) x = (if x = b then a else pred_of (xs @ ys) x)"
      using Cons by simp
    also have "\<dots> = (if x \<in> set ys then (if x = hd ys then last0 (a # xs) else pred_of ys x)
                       else pred_of (a # xs) x)"
      unfolding IH l using b Cons by auto
    finally show ?thesis .
  qed
qed

lemma succ_of_last: "distinct xs \<Longrightarrow> succ_of xs (last xs) = 0"
proof (induction xs)
  case Nil
  then show ?case by simp
next
  case (Cons y ys)
  then show ?case by (cases "ys = []") auto
qed

lemma pred_of_hd: "distinct xs \<Longrightarrow> pred_of xs (hd xs) = 0"
  by (cases xs) (auto simp: pred_of_notin)

lemma hd0_mem: "hd0 xs \<noteq> 0 \<Longrightarrow> hd0 xs \<in> set xs"
  by (cases xs) simp_all

lemma last0_mem: "last0 xs \<noteq> 0 \<Longrightarrow> last0 xs \<in> set xs"
  by (cases "xs = []") (simp_all add: last0_def)

lemma succ_of_mem: "succ_of xs x \<noteq> 0 \<Longrightarrow> succ_of xs x \<in> set xs"
proof (induction xs)
  case Nil
  then show ?case by simp
next
  case (Cons y ys)
  show ?case
  proof (cases "x = y")
    case True
    then show ?thesis using Cons.prems hd0_mem [of ys] by simp
  next
    case False
    then show ?thesis using Cons by simp
  qed
qed

lemma pred_of_mem: "pred_of xs x \<noteq> 0 \<Longrightarrow> pred_of xs x \<in> set xs"
proof (induction xs)
  case Nil
  then show ?case by simp
next
  case (Cons y ys)
  show ?case
  proof (cases "ys \<noteq> [] \<and> x = hd ys")
    case True
    then show ?thesis by simp
  next
    case False
    then show ?thesis using Cons by auto
  qed
qed

section \<open>Relinking\<close>

lemma relinked_refl [simp]: "relinked s s"
  by (simp add: relinked_def)

lemma relinked_trans: "relinked s s1 \<Longrightarrow> relinked s1 s2 \<Longrightarrow> relinked s s2"
  by (simp add: relinked_def)

lemma proj_cursor [simp]:
  "nxt (s\<lparr>c_curr := c\<rparr>) = nxt s" "nxt (s\<lparr>c_head := c\<rparr>) = nxt s"
  "prv (s\<lparr>c_curr := c\<rparr>) = prv s" "prv (s\<lparr>c_head := c\<rparr>) = prv s"
  "avl (s\<lparr>c_curr := c\<rparr>) = avl s" "avl (s\<lparr>c_head := c\<rparr>) = avl s"
  "fhd (s\<lparr>c_curr := c\<rparr>) = fhd s" "fhd (s\<lparr>c_head := c\<rparr>) = fhd s"
  by (simp_all add: nxt_def prv_def avl_def fhd_def fun_eq_iff)

lemma relinked_cursor [simp]:
  "relinked s (s'\<lparr>c_curr := c\<rparr>) = relinked s s'" "relinked s (s'\<lparr>c_head := c\<rparr>) = relinked s s'"
  by (simp_all add: relinked_def)

lemma rd_dom: "a \<in> dom (slabs s) \<Longrightarrow> \<exists>sl. rd s a = Inr sl \<and> s_next sl = nxt s a \<and> s_prev sl = prv s a \<and> s_avail sl = avl s a \<and> s_head sl = fhd s a"
  by (auto simp: rd_def nxt_def prv_def avl_def fhd_def)

lemma set_next_dom:
  assumes "a \<in> dom (slabs s)"
  shows "\<exists>s'. set_next a v s = Inr s' \<and> relinked s s' \<and> nxt s' = (nxt s)(a := v) \<and> prv s' = prv s
     \<and> c_head s' = c_head s \<and> c_curr s' = c_curr s"
  using assms
  by (auto simp: set_next_def relinked_def nxt_def prv_def avl_def fhd_def fun_eq_iff)

lemma set_prev_dom:
  assumes "a \<in> dom (slabs s)"
  shows "\<exists>s'. set_prev a v s = Inr s' \<and> relinked s s' \<and> prv s' = (prv s)(a := v) \<and> nxt s' = nxt s
     \<and> c_head s' = c_head s \<and> c_curr s' = c_curr s"
  using assms
  by (auto simp: set_prev_def relinked_def nxt_def prv_def avl_def fhd_def fun_eq_iff)

lemma bindE_Inr [simp]: "bindE (Inr x) f = f x"
  by (simp add: bindE_def)

lemma bindE_Inl [simp]: "bindE (Inl e) f = Inl e"
  by (simp add: bindE_def)

lemma relinked_dom: "relinked s s' \<Longrightarrow> a \<in> dom (slabs s) \<Longrightarrow> a \<in> dom (slabs s')"
  by (simp add: relinked_def)

text \<open>Dequeue.\<close>

lemma dequeue_wf:
  assumes wf: "wf_list s (A @ a # B)" and A: "A \<noteq> []"
  shows "\<exists>s'. dequeue a s = Inr s' \<and> relinked s s' \<and> c_head s' = c_head s \<and> c_curr s' = c_curr s
     \<and> wf_list s' (A @ B)"
proof -
  let ?xs = "A @ a # B"
  have d: "distinct ?xs" and z: "0 \<notin> set ?xs" and hd: "c_head s = hd0 ?xs"
    and pt: "\<And>x. x \<in> set ?xs \<Longrightarrow> x \<in> dom (slabs s) \<and> nxt s x = succ_of ?xs x \<and> prv s x = pred_of ?xs x"
    using wf by (auto simp: wf_list_def)
  have dAB: "distinct (A @ B)" using d by auto
  have na: "nxt s a = hd0 B" using pt [of a] d by (simp add: succ_of_append)
  have pa: "prv s a = last A" using pt [of a] d A by (simp add: pred_of_append last0_def)
  have lA: "last A \<in> set A" using A by simp
  obtain sl where sl: "rd s a = Inr sl" "s_next sl = hd0 B" "s_prev sl = last A"
    using rd_dom [of a s] pt [of a] na pa by auto
  have "last A \<in> dom (slabs s)" using pt [of "last A"] lA by simp
  from set_next_dom [OF this, of "hd0 B"] obtain s1 where
    s1: "set_next (last A) (hd0 B) s = Inr s1" "relinked s s1" "nxt s1 = (nxt s)(last A := hd0 B)"
      "prv s1 = prv s" "c_head s1 = c_head s" "c_curr s1 = c_curr s" by blast
  have "a \<in> dom (slabs s1)" using pt [of a] s1(2) by (simp add: relinked_def)
  moreover have "last A \<noteq> a" using d lA by auto
  ultimately obtain sl1 where sl1: "rd s1 a = Inr sl1" "s_next sl1 = hd0 B" "s_prev sl1 = last A"
    using rd_dom [of a s1] s1(3,4) na pa by auto
  show ?thesis
  proof (cases "B = []")
    case True
    have "dequeue a s = Inr s1"
      using sl s1 sl1 True by (simp add: dequeue_def)
    moreover have "wf_list s1 (A @ B)"
      unfolding wf_list_def
    proof (intro conjI ballI)
      fix x assume x: "x \<in> set (A @ B)"
      then have xs: "x \<in> set ?xs" by auto
      have xa: "x \<noteq> a" using x d by auto
      show "x \<in> dom (slabs s1)" using pt [OF xs] s1(2) by (simp add: relinked_def)
      show "nxt s1 x = succ_of (A @ B) x"
        using pt [OF xs] x xa d True by (simp add: s1 succ_of_append succ_of_last)
      show "prv s1 x = pred_of (A @ B) x"
        using pt [OF xs] x xa d True by (simp add: s1 pred_of_append)
    qed (use dAB z hd A s1 in \<open>auto simp: hd0_append\<close>)
    ultimately show ?thesis using s1 by auto
  next
    case False
    then obtain b B' where B: "B = b # B'" by (cases B) auto
    have b0: "b \<noteq> 0" using z B by auto
    have "b \<in> dom (slabs s1)" using pt [of b] s1(2) B by (simp add: relinked_def)
    from set_prev_dom [OF this, of "last A"] obtain s2 where
      s2: "set_prev b (last A) s1 = Inr s2" "relinked s1 s2" "prv s2 = (prv s1)(b := last A)"
        "nxt s2 = nxt s1" "c_head s2 = c_head s1" "c_curr s2 = c_curr s1" by blast
    have "dequeue a s = Inr s2"
      using sl s1 sl1 s2 B b0 by (simp add: dequeue_def)
    moreover have "wf_list s2 (A @ B)"
      unfolding wf_list_def
    proof (intro conjI ballI)
      fix x assume x: "x \<in> set (A @ B)"
      then have xs: "x \<in> set ?xs" by auto
      have xa: "x \<noteq> a" using x d by auto
      show "x \<in> dom (slabs s2)" using pt [OF xs] s1(2) s2(2) by (simp add: relinked_def)
      show "nxt s2 x = succ_of (A @ B) x"
        using pt [OF xs] x xa d B lA by (auto simp: s1 s2 succ_of_append)
      show "prv s2 x = pred_of (A @ B) x"
        using pt [OF xs] x xa d B A lA by (auto simp: s1 s2 pred_of_append last0_def)
    qed (use dAB z hd A s1 s2 in \<open>auto simp: hd0_append\<close>)
    ultimately show ?thesis using s1 s2 relinked_trans by auto
  qed
qed

lemma enqueue_as_head_wf:
  assumes wf: "wf_list s ys" and ys: "ys \<noteq> []" and a: "a \<notin> set ys" "a \<noteq> 0" "a \<in> dom (slabs s)"
  shows "\<exists>s'. enqueue_as_head a s = Inr s' \<and> relinked s s' \<and> c_head s' = a \<and> c_curr s' = c_curr s
     \<and> wf_list s' (a # ys)"
proof -
  obtain y ys' where Y: "ys = y # ys'" using ys by (cases ys) auto
  have d: "distinct ys" and z: "0 \<notin> set ys" and hd: "c_head s = y"
    and pt: "\<And>x. x \<in> set ys \<Longrightarrow> x \<in> dom (slabs s) \<and> nxt s x = succ_of ys x \<and> prv s x = pred_of ys x"
    using wf Y by (auto simp: wf_list_def)
  from set_prev_dom [OF a(3), of 0] obtain s1 where
    s1: "set_prev a 0 s = Inr s1" "relinked s s1" "prv s1 = (prv s)(a := 0)"
      "nxt s1 = nxt s" "c_head s1 = c_head s" "c_curr s1 = c_curr s" by blast
  have "a \<in> dom (slabs s1)" using a s1(2) by (simp add: relinked_def)
  from set_next_dom [OF this, of y] obtain s2 where
    s2: "set_next a y s1 = Inr s2" "relinked s1 s2" "nxt s2 = (nxt s1)(a := y)"
      "prv s2 = prv s1" "c_head s2 = c_head s1" "c_curr s2 = c_curr s1" by blast
  have "y \<in> dom (slabs s2)" using pt [of y] Y s1(2) s2(2) by (simp add: relinked_def)
  from set_prev_dom [OF this, of a] obtain s3 where
    s3: "set_prev y a s2 = Inr s3" "relinked s2 s3" "prv s3 = (prv s2)(y := a)"
      "nxt s3 = nxt s2" "c_head s3 = c_head s2" "c_curr s3 = c_curr s2" by blast
  have e: "enqueue_as_head a s = Inr (s3\<lparr>c_head := a\<rparr>)"
    using s1 s2 s3 hd by (simp add: enqueue_as_head_def)
  have r: "relinked s s3" using s1(2) s2(2) s3(2) relinked_trans by blast
  have "wf_list (s3\<lparr>c_head := a\<rparr>) (a # ys)"
    unfolding wf_list_def
  proof (intro conjI ballI)
    fix x assume x: "x \<in> set (a # ys)"
    show "x \<in> dom (slabs (s3\<lparr>c_head := a\<rparr>))"
      using x pt [of x] a r by (auto simp: relinked_def)
    show "nxt (s3\<lparr>c_head := a\<rparr>) x = succ_of (a # ys) x"
      using x pt [of x] a Y by (auto simp: s1 s2 s3)
    show "prv (s3\<lparr>c_head := a\<rparr>) x = pred_of (a # ys) x"
      using x pt [of x] a Y d by (auto simp: s1 s2 s3 pred_of_notin)
  qed (use d z a in auto)
  then show ?thesis using e r s1 s2 s3 by simp
qed

lemma enqueue_after_curr_wf:
  assumes wf: "wf_list s (A @ B)" and A: "A \<noteq> []" and B: "B \<noteq> []" and c: "c_curr s = last A"
    and a: "a \<notin> set (A @ B)" "a \<noteq> 0" "a \<in> dom (slabs s)"
  shows "\<exists>s'. enqueue_after_curr a s = Inr s' \<and> relinked s s' \<and> c_head s' = c_head s
     \<and> c_curr s' = c_curr s \<and> wf_list s' (A @ a # B)"
proof -
  let ?xs = "A @ B"
  obtain b B' where Y: "B = b # B'" using B by (cases B) auto
  have d: "distinct ?xs" and z: "0 \<notin> set ?xs" and hd: "c_head s = hd0 ?xs"
    and pt: "\<And>x. x \<in> set ?xs \<Longrightarrow> x \<in> dom (slabs s) \<and> nxt s x = succ_of ?xs x \<and> prv s x = pred_of ?xs x"
    using wf by (auto simp: wf_list_def)
  have lA: "last A \<in> set A" using A by simp
  have la: "last A \<noteq> a" using a lA by auto
  have ba: "b \<noteq> a" "b \<noteq> last A" "b \<noteq> 0" using a lA d Y z by auto
  have nc: "nxt s (last A) = b" using pt [of "last A"] lA d Y by (simp add: succ_of_append)
  from set_prev_dom [OF a(3), of "last A"] obtain s1 where
    s1: "set_prev a (last A) s = Inr s1" "relinked s s1" "prv s1 = (prv s)(a := last A)"
      "nxt s1 = nxt s" "c_head s1 = c_head s" "c_curr s1 = c_curr s" by blast
  have "last A \<in> dom (slabs s1)" using pt [of "last A"] lA s1(2) by (simp add: relinked_def)
  then obtain c1 where c1: "rd s1 (last A) = Inr c1" "s_next c1 = b"
    using rd_dom [of "last A" s1] s1 nc by auto
  have "a \<in> dom (slabs s1)" using a s1(2) by (simp add: relinked_def)
  from set_next_dom [OF this, of b] obtain s2 where
    s2: "set_next a b s1 = Inr s2" "relinked s1 s2" "nxt s2 = (nxt s1)(a := b)"
      "prv s2 = prv s1" "c_head s2 = c_head s1" "c_curr s2 = c_curr s1" by blast
  have "last A \<in> dom (slabs s2)" using pt [of "last A"] lA s1(2) s2(2) by (simp add: relinked_def)
  then obtain c2 where c2: "rd s2 (last A) = Inr c2" "s_next c2 = b"
    using rd_dom [of "last A" s2] s1 s2 nc la by auto
  have "b \<in> dom (slabs s2)" using pt [of b] Y s1(2) s2(2) by (simp add: relinked_def)
  from set_prev_dom [OF this, of a] obtain s3 where
    s3: "set_prev b a s2 = Inr s3" "relinked s2 s3" "prv s3 = (prv s2)(b := a)"
      "nxt s3 = nxt s2" "c_head s3 = c_head s2" "c_curr s3 = c_curr s2" by blast
  have "last A \<in> dom (slabs s3)"
    using pt [of "last A"] lA s1(2) s2(2) s3(2) by (simp add: relinked_def)
  from set_next_dom [OF this, of a] obtain s4 where
    s4: "set_next (last A) a s3 = Inr s4" "relinked s3 s4" "nxt s4 = (nxt s3)(last A := a)"
      "prv s4 = prv s3" "c_head s4 = c_head s3" "c_curr s4 = c_curr s3" by blast
  have e: "enqueue_after_curr a s = Inr s4"
    using s1 c1 s2 c2 s3 s4 c by (simp add: enqueue_after_curr_def)
  have r: "relinked s s4" using s1(2) s2(2) s3(2) s4(2) relinked_trans by blast
  have d': "distinct (A @ a # B)" using d a by auto
  have "wf_list s4 (A @ a # B)"
    unfolding wf_list_def
  proof (intro conjI ballI)
    fix x assume x: "x \<in> set (A @ a # B)"
    show "x \<in> dom (slabs s4)"
      using x pt [of x] a r by (auto simp: relinked_def)
    show "nxt s4 x = succ_of (A @ a # B) x"
      using x pt [of x] a Y d lA by (auto simp: s1 s2 s3 s4 succ_of_append)
    show "prv s4 x = pred_of (A @ a # B) x"
      using x pt [of x] a Y d lA A by (auto simp: s1 s2 s3 s4 pred_of_append pred_of_notin last0_def)
  qed (use d' z a hd A s1 s2 s3 s4 in \<open>auto simp: hd0_append\<close>)
  then show ?thesis using e r s1 s2 s3 s4 by simp
qed

section \<open>Addresses inside a page\<close>

lemma PAGE_MASK_mask: "PAGE_MASK = mask 12"
  by (simp add: PAGE_MASK_def PAGE_SIZE_def mask_eq_exp_minus_1)

lemma mask_page:
  fixes a :: "64 word"
  assumes "a AND mask 12 = 0" "x < 2 ^ 12"
  shows "(a + x) AND NOT (mask 12) = a"
proof -
  have xm: "x AND mask 12 = x" using assms(2) by (simp add: less_mask_eq)
  have xa: "bit x n \<Longrightarrow> n < 12" for n
  proof -
    assume "bit x n"
    then have "bit (x AND mask 12) n" using xm by simp
    then show "n < 12" by (simp add: bit_and_iff bit_mask_iff)
  qed
  have aa: "bit a n \<Longrightarrow> \<not> n < 12" for n
  proof
    assume "bit a n" "n < 12"
    then have "bit (a AND mask 12) n" by (simp add: bit_and_iff bit_mask_iff)
    then show False using assms(1) by simp
  qed
  have "a + x = a OR x"
    by (rule disjunctive_add) (use xa aa in blast)
  then show ?thesis
    by (auto simp: bit_eq_iff bit_and_iff bit_or_iff bit_not_iff bit_mask_iff dest: xa aa)
qed

lemma slab_of_offset:
  assumes "aligned a" "off < 4096"
  shows "slab_of (a + of_nat off) = a"
proof -
  have "(of_nat off :: 64 word) < 2 ^ 12"
    using assms(2) by (simp add: word_less_nat_alt unat_of_nat)
  then show ?thesis
    using assms(1) mask_page [of a "of_nat off"] by (simp add: slab_of_def aligned_def PAGE_MASK_mask)
qed

lemma slab_of_0 [simp]: "slab_of 0 = 0"
  by (simp add: slab_of_def)

text \<open>The offset of a buffer inside its page.\<close>

lemma buf_offset:
  assumes c: "cfg_ok s" and k: "k < unat (c_elem s)"
  shows "buf s a k = a + of_nat (4096 - Suc k * unat (c_buff s))"
    and "Suc k * unat (c_buff s) \<le> 4056"
proof -
  have "Suc k * unat (c_buff s) \<le> unat (c_elem s) * unat (c_buff s)"
    using k by (intro mult_right_mono) auto
  then show le: "Suc k * unat (c_buff s) \<le> 4056" using c by (simp add: cfg_ok_def)
  then have "(of_nat (4096 - Suc k * unat (c_buff s)) :: 64 word)
      = of_nat 4096 - of_nat (Suc k * unat (c_buff s))"
    by (subst of_nat_diff) auto
  also have "\<dots> = PAGE_SIZE - of_nat (Suc k) * c_buff s"
    by (simp add: PAGE_SIZE_def algebra_simps)
  finally show "buf s a k = a + of_nat (4096 - Suc k * unat (c_buff s))"
    by (simp add: buf_def algebra_simps)
qed

lemma slab_of_buf:
  assumes "cfg_ok s" "k < unat (c_elem s)" "aligned a"
  shows "slab_of (buf s a k) = a"
proof -
  define off where "off = 4096 - Suc k * unat (c_buff s)"
  have "0 < unat (c_buff s)" using assms(1) by (auto simp: cfg_ok_def)
  then have "buf s a k = a + of_nat off" "off < 4096"
    using buf_offset(1) [OF assms(1,2), of a] by (simp_all add: off_def)
  then show ?thesis using slab_of_offset [OF assms(3), of off] by simp
qed

lemma slab_of_link:
  assumes c: "cfg_ok s" and k: "k < unat (c_elem s)" and a: "aligned a"
  shows "slab_of (buf s a k + c_size s) = a"
proof -
  have b: "0 < unat (c_buff s)" "unat (c_size s) < unat (c_buff s)" using c by (auto simp: cfg_ok_def)
  have le: "Suc k * unat (c_buff s) \<le> 4056" by (rule buf_offset(2) [OF c k])
  define off where "off = 4096 - Suc k * unat (c_buff s) + unat (c_size s)"
  have "buf s a k + c_size s = a + of_nat off"
    using buf_offset(1) [OF c k, of a] by (simp add: off_def)
  moreover have "off < 4096"
    using le b by (simp add: off_def)
  ultimately show ?thesis using slab_of_offset [OF a, of off] by simp
qed

lemma buf_inj:
  assumes c: "cfg_ok s" and k: "k < unat (c_elem s)" "j < unat (c_elem s)"
    and e: "buf s a k = buf s a j"
  shows "k = j"
proof -
  have b: "0 < unat (c_buff s)" using c by (auto simp: cfg_ok_def)
  let ?o = "\<lambda>k. 4096 - Suc k * unat (c_buff s)"
  have "(of_nat (?o k) :: 64 word) = of_nat (?o j)"
    using e buf_offset(1) [OF c k(1), of a] buf_offset(1) [OF c k(2), of a] by simp
  then have "unat (of_nat (?o k) :: 64 word) = unat (of_nat (?o j) :: 64 word)" by simp
  then have "?o k = ?o j" by (simp add: unat_of_nat)
  then have "Suc k * unat (c_buff s) = Suc j * unat (c_buff s)"
    using buf_offset(2) [OF c k(1)] buf_offset(2) [OF c k(2)] by linarith
  then show ?thesis using b by simp
qed

lemma bufs_slab_of: "cfg_ok s \<Longrightarrow> aligned a \<Longrightarrow> p \<in> bufs s a \<Longrightarrow> slab_of p = a"
  by (auto simp: bufs_def slab_of_buf)

lemma bufs_link_slab_of: "cfg_ok s \<Longrightarrow> aligned a \<Longrightarrow> p \<in> bufs s a \<Longrightarrow> slab_of (p + c_size s) = a"
  by (auto simp: bufs_def slab_of_link)

lemma bufs_link_nz: "cfg_ok s \<Longrightarrow> aligned a \<Longrightarrow> a \<noteq> 0 \<Longrightarrow> p \<in> bufs s a \<Longrightarrow> p + c_size s \<noteq> 0"
  using bufs_link_slab_of [of s a p] by (metis slab_of_0)

lemma card_bufs: "cfg_ok s \<Longrightarrow> card (bufs s a) = unat (c_elem s)"
  unfolding bufs_def
  by (subst card_image) (auto simp: inj_on_def dest: buf_inj)

lemma finite_bufs [simp]: "finite (bufs s a)"
  by (simp add: bufs_def)

section \<open>Free lists\<close>

lemma chain_cong: "(\<And>l. l \<in> set ls \<Longrightarrow> m' l = m l) \<Longrightarrow> chain m' h ls = chain m h ls"
  by (induction ls arbitrary: h) auto

lemma chain_frame: "chain m h ls \<Longrightarrow> l \<notin> set ls \<Longrightarrow> chain (m(l := v)) h ls"
proof -
  assume c: "chain m h ls" and l: "l \<notin> set ls"
  have "chain (m(l := v)) h ls = chain m h ls"
    by (rule chain_cong) (use l in auto)
  then show ?thesis using c by simp
qed

lemma format_chain:
  assumes "chain m h ls"
    and "\<And>j. j < unat i \<Longrightarrow> link - of_nat j * buff \<noteq> 0 \<and> link - of_nat j * buff \<notin> set ls"
    and "inj_on (\<lambda>j. link - of_nat j * buff) {..< unat i}"
  shows "chain (snd (format i link buff h m)) (fst (format i link buff h m))
           (rev (map (\<lambda>j. link - of_nat j * buff) [0..<unat i]) @ ls)
       \<and> (\<forall>x. x \<notin> (\<lambda>j. link - of_nat j * buff) ` {..< unat i} \<longrightarrow>
              snd (format i link buff h m) x = m x)"
  using assms
proof (induction i link buff h m arbitrary: ls rule: format.induct)
  case (1 i link buff h m)
  show ?case
  proof (cases "i = 0")
    case True
    then show ?thesis using "1.prems"(1) by (simp add: format.simps)
  next
    case False
    then have n: "unat i = Suc (unat (i - 1))"
      by (metis Suc_pred' unat_gt_0 unat_minus_one)
    let ?f = "\<lambda>j. link - of_nat j * buff"
    let ?g = "\<lambda>j. (link - buff) - of_nat j * buff"
    have fg: "?g j = ?f (Suc j)" for j by (simp add: algebra_simps)
    have l0: "link \<noteq> 0" "link \<notin> set ls" using "1.prems"(2) [of 0] n by auto
    have c: "chain (m(link := h)) link (link # ls)"
      using "1.prems"(1) l0 by (simp add: chain_frame)
    have inj: "inj_on ?f {..< Suc (unat (i - 1))}" using "1.prems"(3) n by simp
    have p2: "?g j \<noteq> 0 \<and> ?g j \<notin> set (link # ls)" if "j < unat (i - 1)" for j
    proof -
      have "Suc j < unat i" using that n by simp
      then have "?f (Suc j) \<noteq> 0 \<and> ?f (Suc j) \<notin> set ls" using "1.prems"(2) by blast
      moreover have "?f (Suc j) \<noteq> ?f 0"
      proof
        assume "?f (Suc j) = ?f 0"
        then have "Suc j = 0" using inj that by (intro inj_onD [OF inj]) auto
        then show False by simp
      qed
      ultimately show ?thesis unfolding fg by simp
    qed
    have p3: "inj_on ?g {..< unat (i - 1)}"
    proof (rule inj_onI)
      fix x y assume xy: "x \<in> {..< unat (i - 1)}" "y \<in> {..< unat (i - 1)}" and e: "?g x = ?g y"
      from e have "?f (Suc x) = ?f (Suc y)" unfolding fg .
      then have "Suc x = Suc y" by (rule inj_onD [OF inj]) (use xy in auto)
      then show "x = y" by simp
    qed
    note IH = "1.IH" [OF False c p2 p3]
    have u: "format i link buff h m = format (i - 1) (link - buff) buff link (m(link := h))"
      using False by (subst format.simps) simp
    have m1: "map ?f [0..<unat i] = link # map ?g [0..<unat (i - 1)]"
      unfolding n fg by (simp add: upt_conv_Cons map_Suc_upt [symmetric] del: upt_Suc)
    have im: "?f ` {..< unat i} = insert link (?g ` {..< unat (i - 1)})"
      unfolding n fg by (auto simp: lessThan_Suc_eq_insert_0 image_iff)
    let ?r = "format (i - 1) (link - buff) buff link (m(link := h))"
    have r1: "chain (snd ?r) (fst ?r) (rev (map ?g [0..<unat (i - 1)]) @ link # ls)"
      using IH by (rule conjunct1)
    have r2: "x \<notin> ?g ` {..< unat (i - 1)} \<Longrightarrow> snd ?r x = (m(link := h)) x" for x
      using IH by blast
    show ?thesis
      unfolding u m1 im
    proof (intro conjI allI impI)
      show "chain (snd ?r) (fst ?r) (rev (link # map ?g [0..<unat (i - 1)]) @ ls)"
        using r1 by (simp only: rev.simps append_assoc append.simps)
    next
      fix x assume "x \<notin> insert link (?g ` {..< unat (i - 1)})"
      then have x: "x \<noteq> link" "x \<notin> ?g ` {..< unat (i - 1)}" by auto
      have "snd ?r x = (m(link := h)) x" using x(2) by (rule r2)
      also have "\<dots> = m x" using x(1) by (simp only: fun_upd_apply if_False)
      finally show "snd ?r x = m x" .
    qed
  qed
qed

lemma bufs_touched: "touched a s s' \<Longrightarrow> bufs s' b = bufs s b"
  by (simp add: touched_def bufs_def buf_def)

lemma live_in_Cons: "live_in ((p, a) # lv) b = (if b = a then insert p (live_in lv b) else live_in lv b)"
  by (auto simp: live_in_def)

lemma live_in_filter: "live_in (filter (\<lambda>e. fst e \<noteq> p) lv) b = live_in lv b - {p}"
  by (auto simp: live_in_def)

lemma Slab_alloc_ok:
  assumes si: "slab_inv s lv a" and d: "a \<in> dom (slabs s)" and nf: "avl s a \<noteq> 0"
  shows "\<exists>p s'. Slab_alloc a s = Inr (p, s') \<and> touched a s s' \<and> mem s' = mem s \<and>
     avl s' a = avl s a - 1 \<and> p = fhd s a - c_size s \<and> p \<in> bufs s a \<and> p \<notin> live_in lv a \<and>
     slab_inv s' ((p, a) # lv) a"
proof -
  obtain fp where fp: "chain (mem s) (fhd s a) (map (\<lambda>p. p + c_size s) fp)" "distinct fp"
      "length fp = unat (avl s a)" "set fp \<union> live_in lv a = bufs s a" "set fp \<inter> live_in lv a = {}"
    using si by (auto simp: slab_inv_def)
  have "unat (avl s a) \<noteq> 0" using nf by (simp add: unat_eq_zero)
  then obtain q fq where q: "fp = q # fq" using fp(3) by (cases fp) auto
  have h: "fhd s a = q + c_size s" "q + c_size s \<noteq> 0"
    and c: "chain (mem s) (mem s (q + c_size s)) (map (\<lambda>p. p + c_size s) fq)"
    using fp(1) q by auto
  obtain sl where sl: "slabs s a = Some sl" using d by auto
  define s' where "s' = s\<lparr>slabs := (slabs s)(a \<mapsto> sl\<lparr>s_avail := s_avail sl - 1, s_head := mem s (s_head sl)\<rparr>)\<rparr>"
  have sh: "s_head sl = q + c_size s" "s_avail sl = avl s a"
    using h sl by (simp_all add: fhd_def avl_def)
  have r: "Slab_alloc a s = Inr (q, s')"
    using sl sh h by (simp add: Slab_alloc_def rd_def s'_def)
  have t: "touched a s s'"
    using sl by (auto simp: touched_def s'_def nxt_def prv_def avl_def fhd_def fun_eq_iff)
  have av: "avl s' a = avl s a - 1" and fh: "fhd s' a = mem s (q + c_size s)" and m: "mem s' = mem s"
    and cs: "c_size s' = c_size s"
    using sh by (simp_all add: s'_def avl_def fhd_def)
  have len: "length fq = unat (avl s' a)"
    using fp(3) q nf by (simp add: av unat_minus_one)
  have "slab_inv s' ((q, a) # lv) a"
    unfolding slab_inv_def
    apply (rule exI [of _ fq])
    using c fp(2,4,5) q len
    by (auto simp: m fh cs live_in_Cons bufs_touched [OF t])
  moreover have "q \<in> bufs s a" "q \<notin> live_in lv a" using fp(4,5) q by auto
  ultimately show ?thesis using r t m av h by auto
qed

lemma Slab_free_ok:
  assumes si: "slab_inv s lv a" and d: "a \<in> dom (slabs s)" and p: "p \<in> live_in lv a"
    and c: "cfg_ok s" and al: "aligned a" "a \<noteq> 0"
  shows "\<exists>s'. Slab_free a p s = Inr s' \<and> touched a s s' \<and> mem s' = (mem s)(p + c_size s := fhd s a) \<and>
     avl s' a = avl s a + 1 \<and> unat (avl s a) < unat (c_elem s) \<and>
     slab_inv s' (filter (\<lambda>e. fst e \<noteq> p) lv) a"
proof -
  obtain fp where fp: "chain (mem s) (fhd s a) (map (\<lambda>p. p + c_size s) fp)" "distinct fp"
      "length fp = unat (avl s a)" "set fp \<union> live_in lv a = bufs s a" "set fp \<inter> live_in lv a = {}"
    using si by (auto simp: slab_inv_def)
  have pb: "p \<in> bufs s a" "p \<notin> set fp" using fp(4,5) p by auto
  have "set fp \<subset> bufs s a" using pb fp(4) by auto
  then have "card (set fp) < card (bufs s a)" by (intro psubset_card_mono) auto
  then have lt: "unat (avl s a) < unat (c_elem s)"
    using fp(2,3) by (simp add: distinct_card card_bufs [OF c])
  obtain sl where sl: "slabs s a = Some sl" using d by auto
  define s' where "s' = s\<lparr>slabs := (slabs s)(a \<mapsto> sl\<lparr>s_avail := s_avail sl + 1, s_head := p + c_size s\<rparr>),
      mem := (mem s)(p + c_size s := s_head sl)\<rparr>"
  have r: "Slab_free a p s = Inr s'"
    using sl by (simp add: Slab_free_def rd_def s'_def Let_def)
  have t: "touched a s s'"
    using sl by (auto simp: touched_def s'_def nxt_def prv_def avl_def fhd_def fun_eq_iff)
  have av: "avl s' a = avl s a + 1" and fh: "fhd s' a = p + c_size s"
    and m: "mem s' = (mem s)(p + c_size s := fhd s a)" and cs: "c_size s' = c_size s"
    using sl by (simp_all add: s'_def avl_def fhd_def)
  have "unat (avl s a) + 1 < 2 ^ 64"
    using lt unsigned_less [of "c_elem s", where ?'a = nat] by simp
  then have len: "length (p # fp) = unat (avl s' a)"
    using fp(3) by (simp add: av unat_add_lem [THEN iffD1])
  have nl: "p + c_size s \<notin> set (map (\<lambda>p. p + c_size s) fp)" using pb by auto
  have ch: "chain (mem s') (p + c_size s) (map (\<lambda>p. p + c_size s) (p # fp))"
    using chain_frame [OF fp(1) nl, of "fhd s a"] bufs_link_nz [OF c al pb(1)]
    by (simp add: m)
  have "slab_inv s' (filter (\<lambda>e. fst e \<noteq> p) lv) a"
    unfolding slab_inv_def
    apply (rule exI [of _ "p # fp"])
    using ch fp(2,4,5) pb len p
    by (auto simp: fh cs live_in_filter bufs_touched [OF t])
  then show ?thesis using r t m av lt by auto
qed

lemma slab_inv_frame:
  assumes si: "slab_inv s lv b" and ba: "b \<noteq> a" and t: "touched a s s'"
    and m: "\<And>q. q \<in> bufs s b \<Longrightarrow> mem s' (q + c_size s) = mem s (q + c_size s)"
    and l: "live_in lv' b = live_in lv b"
  shows "slab_inv s' lv' b"
proof -
  obtain fp where fp: "chain (mem s) (fhd s b) (map (\<lambda>p. p + c_size s) fp)" "distinct fp"
      "length fp = unat (avl s b)" "set fp \<union> live_in lv b = bufs s b" "set fp \<inter> live_in lv b = {}"
    using si by (auto simp: slab_inv_def)
  have e: "avl s' b = avl s b" "fhd s' b = fhd s b" "c_size s' = c_size s"
    using t ba by (auto simp: touched_def)
  have "chain (mem s') (fhd s b) (map (\<lambda>p. p + c_size s) fp) = chain (mem s) (fhd s b) (map (\<lambda>p. p + c_size s) fp)"
    by (rule chain_cong) (use m fp(4) in auto)
  then show ?thesis
    unfolding slab_inv_def
    apply (intro exI [of _ fp])
    using fp by (simp add: e l bufs_touched [OF t])
qed

section \<open>The order-independent part of the invariant\<close>

lemma cfg_ok_cong: "c_size s' = c_size s \<Longrightarrow> c_buff s' = c_buff s \<Longrightarrow> c_elem s' = c_elem s \<Longrightarrow>
    cfg_ok s' = cfg_ok s"
  by (simp add: cfg_ok_def)

lemma bufs_cong: "c_buff s' = c_buff s \<Longrightarrow> c_elem s' = c_elem s \<Longrightarrow> bufs s' a = bufs s a"
  by (simp add: bufs_def buf_def)

lemma slab_inv_relinked: "relinked s s' \<Longrightarrow> slab_inv s' lv a = slab_inv s lv a"
  by (simp add: slab_inv_def relinked_def bufs_def buf_def)

lemma used_relinked: "relinked s s' \<Longrightarrow> used s' = used s"
  by (simp add: used_def relinked_def fun_eq_iff)

lemma core_relinked:
  assumes c: "core s lv xs" and r: "relinked s s'" and w: "wf_list s' xs'" and e: "set xs' = set xs"
  shows "core s' lv xs'"
proof -
  have p: "pages s' = pages s" using r by (simp add: relinked_def)
  have "cfg_ok s'" using c r cfg_ok_cong [of s' s] by (simp add: core_def relinked_def)
  moreover have "\<forall>a\<in>set xs'. slab_inv s' lv a"
    using c by (simp add: core_def e slab_inv_relinked [OF r])
  moreover have "sum (used s') (set xs') = length lv"
    using c by (simp add: core_def e used_relinked [OF r])
  ultimately show ?thesis
    using c w unfolding core_def e p by blast
qed

lemma wf_list_touched: "touched a s s' \<Longrightarrow> wf_list s' xs = wf_list s xs"
  by (simp add: wf_list_def touched_def)

lemma length_filter_fst:
  "distinct (map fst lv) \<Longrightarrow> p \<in> fst ` set lv \<Longrightarrow> Suc (length (filter (\<lambda>e. fst e \<noteq> p) lv)) = length lv"
proof (induction lv)
  case Nil
  then show ?case by simp
next
  case (Cons e lv)
  show ?case
  proof (cases "fst e = p")
    case True
    then have "p \<notin> fst ` set lv" using Cons.prems by auto
    then have "filter (\<lambda>e. fst e \<noteq> p) lv = lv" by (auto simp: filter_id_conv)
    then show ?thesis using True by simp
  next
    case False
    then show ?thesis using Cons by auto
  qed
qed

lemma core_live:
  assumes c: "core s lv xs" and l: "(p, a) \<in> set lv"
  shows "a \<in> set xs" "p \<in> live_in lv a" "p \<in> bufs s a" "slab_of p = a" "aligned a" "a \<noteq> 0"
    "a \<in> dom (slabs s)" "slab_inv s lv a"
proof -
  show a: "a \<in> set xs" using c l by (force simp: core_def)
  show p: "p \<in> live_in lv a" using l by (simp add: live_in_def)
  show si: "slab_inv s lv a" using c a by (simp add: core_def)
  then show b: "p \<in> bufs s a" using p by (auto simp: slab_inv_def)
  show al: "aligned a" using c a by (simp add: core_def)
  show "slab_of p = a" using bufs_slab_of [OF _ al b] c by (simp add: core_def)
  show "a \<noteq> 0" "a \<in> dom (slabs s)" using c a by (auto simp: core_def wf_list_def)
qed

lemma core_bufs_disjoint:
  assumes c: "core s lv xs" and a: "a \<in> set xs" "b \<in> set xs" "a \<noteq> b" and p: "p \<in> bufs s a"
  shows "p \<notin> bufs s b"
proof
  assume "p \<in> bufs s b"
  then have "slab_of p = b" using bufs_slab_of [of s b p] c a by (simp add: core_def)
  moreover have "slab_of p = a" using bufs_slab_of [of s a p] c a p by (simp add: core_def)
  ultimately show False using a by simp
qed

lemma slab_inv_live_sub: "slab_inv s lv a \<Longrightarrow> live_in lv a \<subseteq> bufs s a"
  by (auto simp: slab_inv_def)

lemma slab_inv_avl_le: "cfg_ok s \<Longrightarrow> slab_inv s lv a \<Longrightarrow> unat (avl s a) \<le> unat (c_elem s)"
proof -
  assume c: "cfg_ok s" and "slab_inv s lv a"
  then obtain fp where fp: "distinct fp" "length fp = unat (avl s a)" "set fp \<union> live_in lv a = bufs s a"
    by (auto simp: slab_inv_def)
  have "card (set fp) \<le> card (bufs s a)" using fp(3) by (intro card_mono) auto
  then show ?thesis using fp(1,2) by (simp add: distinct_card card_bufs [OF c])
qed

lemma core_Slab_free:
  assumes c: "core s lv xs" and l: "(p, a) \<in> set lv"
  shows "\<exists>s1. Slab_free a p s = Inr s1 \<and> touched a s s1 \<and> avl s1 a = avl s a + 1 \<and>
     unat (avl s a) < unat (c_elem s) \<and> core s1 (filter (\<lambda>e. fst e \<noteq> p) lv) xs"
proof -
  note L = core_live [OF c l]
  have cf: "cfg_ok s" using c by (simp add: core_def)
  from Slab_free_ok [OF L(8) L(7) L(2) cf L(5) L(6)] obtain s1 where
    s1: "Slab_free a p s = Inr s1" "touched a s s1" "mem s1 = (mem s)(p + c_size s := fhd s a)"
      "avl s1 a = avl s a + 1" "unat (avl s a) < unat (c_elem s)"
      "slab_inv s1 (filter (\<lambda>e. fst e \<noteq> p) lv) a" by blast
  let ?lv = "filter (\<lambda>e. fst e \<noteq> p) lv"
  have si: "slab_inv s1 ?lv b" if b: "b \<in> set xs" for b
  proof (cases "b = a")
    case True
    then show ?thesis using s1(6) by simp
  next
    case False
    have sb: "slab_inv s lv b" using c b by (simp add: core_def)
    have nb: "p \<notin> bufs s b" using core_bufs_disjoint [OF c L(1) b _ L(3)] False by auto
    show ?thesis
    proof (rule slab_inv_frame [OF sb False s1(2)])
      fix q assume "q \<in> bufs s b"
      then have "q \<noteq> p" using nb by auto
      then show "mem s1 (q + c_size s) = mem s (q + c_size s)" by (simp add: s1(3))
    next
      show "live_in ?lv b = live_in lv b"
        using nb slab_inv_live_sub [OF sb] by (auto simp: live_in_filter)
    qed
  qed
  have e: "c_elem s1 = c_elem s" using s1(2) by (simp add: touched_def)
  have u: "used s1 b = used s b" if "b \<noteq> a" for b
    using s1(2) that by (simp add: used_def touched_def)
  have "unat (avl s a) + 1 < 2 ^ 64"
    using s1(5) unsigned_less [of "c_elem s", where ?'a = nat] by simp
  then have ua: "Suc (used s1 a) = used s a"
    using s1(5) by (simp add: used_def e s1(4) unat_add_lem [THEN iffD1])
  have "sum (used s) (set xs) = used s a + sum (used s) (set xs - {a})"
    using L(1) by (simp add: sum.remove)
  moreover have "sum (used s1) (set xs) = used s1 a + sum (used s1) (set xs - {a})"
    using L(1) by (simp add: sum.remove)
  moreover have "sum (used s1) (set xs - {a}) = sum (used s) (set xs - {a})"
    by (rule sum.cong) (use u in auto)
  moreover have "Suc (length ?lv) = length lv"
    using length_filter_fst [of lv p] c l by (force simp: core_def)
  ultimately have sm: "sum (used s1) (set xs) = length ?lv"
    using ua c by (simp add: core_def)
  have "core s1 ?lv xs"
    unfolding core_def
    using c si sm s1(2)
    by (auto simp: core_def wf_list_touched [OF s1(2)] distinct_map_filter touched_def cfg_ok_def)
  then show ?thesis using s1 by blast
qed

lemma slab_inv_cong:
  assumes si: "slab_inv s lv b"
    and e: "c_size s' = c_size s" "c_buff s' = c_buff s" "c_elem s' = c_elem s"
      "avl s' b = avl s b" "fhd s' b = fhd s b"
    and m: "\<And>q. q \<in> bufs s b \<Longrightarrow> mem s' (q + c_size s) = mem s (q + c_size s)"
    and l: "live_in lv' b = live_in lv b"
  shows "slab_inv s' lv' b"
proof -
  obtain fp where fp: "chain (mem s) (fhd s b) (map (\<lambda>p. p + c_size s) fp)" "distinct fp"
      "length fp = unat (avl s b)" "set fp \<union> live_in lv b = bufs s b" "set fp \<inter> live_in lv b = {}"
    using si by (auto simp: slab_inv_def)
  have "chain (mem s') (fhd s b) (map (\<lambda>p. p + c_size s) fp) = chain (mem s) (fhd s b) (map (\<lambda>p. p + c_size s) fp)"
    by (rule chain_cong) (use m fp(4) in auto)
  then show ?thesis
    unfolding slab_inv_def
    apply (intro exI [of _ fp])
    using fp by (simp add: e l bufs_cong [OF e(2,3)])
qed

lemma core_Slab_alloc:
  assumes c: "core s lv xs" and a: "a \<in> set xs" and nf: "avl s a \<noteq> 0"
  shows "\<exists>p s1. Slab_alloc a s = Inr (p, s1) \<and> touched a s s1 \<and> mem s1 = mem s \<and>
     avl s1 a = avl s a - 1 \<and> p = fhd s a - c_size s \<and> p \<in> bufs s a \<and> slab_of p = a \<and>
     p \<notin> fst ` set lv \<and> unat (avl s a) \<le> unat (c_elem s) \<and> core s1 ((p, a) # lv) xs"
proof -
  have cf: "cfg_ok s" and al: "aligned a" and si: "slab_inv s lv a" and d: "a \<in> dom (slabs s)"
    using c a by (auto simp: core_def wf_list_def)
  from Slab_alloc_ok [OF si d nf] obtain p s1 where
    s1: "Slab_alloc a s = Inr (p, s1)" "touched a s s1" "mem s1 = mem s" "avl s1 a = avl s a - 1"
      "p = fhd s a - c_size s" "p \<in> bufs s a" "p \<notin> live_in lv a" "slab_inv s1 ((p, a) # lv) a"
    by blast
  have sp: "slab_of p = a" by (rule bufs_slab_of [OF cf al s1(6)])
  have le: "unat (avl s a) \<le> unat (c_elem s)" by (rule slab_inv_avl_le [OF cf si])
  have np: "p \<notin> fst ` set lv"
  proof
    assume "p \<in> fst ` set lv"
    then obtain b where b: "(p, b) \<in> set lv" by force
    from core_live(2,4) [OF c b] have "p \<in> live_in lv b" "slab_of p = b" .
    then show False using sp s1(7) by simp
  qed
  have si': "slab_inv s1 ((p, a) # lv) b" if b: "b \<in> set xs" for b
  proof (cases "b = a")
    case True
    then show ?thesis using s1(8) by simp
  next
    case False
    have sb: "slab_inv s lv b" using c b by (simp add: core_def)
    show ?thesis
      by (rule slab_inv_frame [OF sb False s1(2)]) (use False in \<open>simp_all add: s1(3) live_in_Cons\<close>)
  qed
  have e: "c_elem s1 = c_elem s" using s1(2) by (simp add: touched_def)
  have u: "used s1 b = used s b" if "b \<noteq> a" for b
    using s1(2) that by (simp add: used_def touched_def)
  have "0 < unat (avl s a)" using nf by (simp add: unat_gt_0)
  then have ua: "used s1 a = Suc (used s a)"
    using le nf by (simp add: used_def e s1(4) unat_minus_one)
  have "sum (used s) (set xs) = used s a + sum (used s) (set xs - {a})"
    using a by (simp add: sum.remove)
  moreover have "sum (used s1) (set xs) = used s1 a + sum (used s1) (set xs - {a})"
    using a by (simp add: sum.remove)
  moreover have "sum (used s1) (set xs - {a}) = sum (used s) (set xs - {a})"
    by (rule sum.cong) (use u in auto)
  ultimately have sm: "sum (used s1) (set xs) = length ((p, a) # lv)"
    using ua c by (simp add: core_def)
  have "core s1 ((p, a) # lv) xs"
    unfolding core_def
    using c si' sm s1(2) np a
    by (auto simp: core_def wf_list_touched [OF s1(2)] touched_def cfg_ok_def)
  then show ?thesis using s1 sp np le by blast
qed

lemma Slab_ok:
  assumes cf: "cfg_ok s" and al: "aligned pg" "pg \<noteq> 0" and lv: "live_in lv pg = {}"
  shows "c_size (Slab pg s) = c_size s" "c_buff (Slab pg s) = c_buff s" "c_elem (Slab pg s) = c_elem s"
    "c_curr (Slab pg s) = c_curr s" "c_head (Slab pg s) = c_head s" "pages (Slab pg s) = pages s"
    "dom (slabs (Slab pg s)) = insert pg (dom (slabs s))"
    "nxt (Slab pg s) = (nxt s)(pg := 0)" "prv (Slab pg s) = (prv s)(pg := 0)"
    "avl (Slab pg s) = (avl s)(pg := c_elem s)"
    "\<And>b. b \<noteq> pg \<Longrightarrow> fhd (Slab pg s) b = fhd s b"
    "\<And>x. slab_of x \<noteq> pg \<Longrightarrow> mem (Slab pg s) x = mem s x"
    "slab_inv (Slab pg s) lv pg"
proof -
  let ?s = "Slab pg s"
  let ?link = "pg + PAGE_SIZE - c_buff s + c_size s"
  let ?r = "format (c_elem s) ?link (c_buff s) 0 (mem s)"
  let ?f = "\<lambda>j. ?link - of_nat j * c_buff s"
  show g1: "c_size ?s = c_size s" "c_buff ?s = c_buff s" "c_elem ?s = c_elem s"
    "c_curr ?s = c_curr s" "c_head ?s = c_head s" "pages ?s = pages s"
    "dom (slabs ?s) = insert pg (dom (slabs s))"
    by (simp_all add: Slab_def Let_def)
  show "nxt ?s = (nxt s)(pg := 0)" "prv ?s = (prv s)(pg := 0)" "avl ?s = (avl s)(pg := c_elem s)"
    by (simp_all add: Slab_def Let_def nxt_def prv_def avl_def fun_eq_iff)
  show "\<And>b. b \<noteq> pg \<Longrightarrow> fhd ?s b = fhd s b"
    by (simp add: Slab_def Let_def fhd_def)
  have fb: "?f j = buf s pg j + c_size s" for j
    by (simp add: buf_def algebra_simps)
  have nz: "?f j \<noteq> 0 \<and> ?f j \<notin> set []" if "j < unat (c_elem s)" for j
    using bufs_link_nz [OF cf al, of "buf s pg j"] that by (simp add: fb bufs_def)
  have inj: "inj_on ?f {..< unat (c_elem s)}"
    unfolding fb by (rule inj_onI) (use buf_inj [OF cf] in auto)
  have "chain (mem s) 0 []" by simp
  from format_chain [OF this nz inj]
  have ch: "chain (snd ?r) (fst ?r) (rev (map ?f [0..<unat (c_elem s)]))"
    and fr: "\<And>x. x \<notin> ?f ` {..< unat (c_elem s)} \<Longrightarrow> snd ?r x = mem s x"
    by simp_all
  have ms: "mem ?s = snd ?r" and fh: "fhd ?s pg = fst ?r" and av: "avl ?s pg = c_elem s"
    by (simp_all add: Slab_def Let_def fhd_def avl_def)
  show "mem ?s x = mem s x" if "slab_of x \<noteq> pg" for x
  proof -
    have "x \<notin> ?f ` {..< unat (c_elem s)}"
      using that slab_of_link [OF cf _ al(1)] by (auto simp: fb)
    then show ?thesis using fr by (simp add: ms)
  qed
  define fp where "fp = rev (map (buf s pg) [0..<unat (c_elem s)])"
  have m: "map (\<lambda>p. p + c_size s) fp = rev (map ?f [0..<unat (c_elem s)])"
    by (simp add: fp_def rev_map fb)
  have d: "distinct fp"
    unfolding fp_def by (simp add: distinct_map) (rule inj_onI, use buf_inj [OF cf] in auto)
  have st: "set fp = bufs s pg" by (auto simp: fp_def bufs_def)
  have ln: "length fp = unat (c_elem s)" by (simp add: fp_def)
  have ch': "chain (snd ?r) (fst ?r) (map (\<lambda>p. p + c_size s) fp)"
    using ch unfolding m .
  show "slab_inv ?s lv pg"
    unfolding slab_inv_def
    apply (rule exI [of _ fp])
    using ch' d st lv ln
    by (simp add: ms fh av g1 bufs_cong [of ?s s])
qed

lemma proj_pages [simp]:
  "nxt (s\<lparr>pages := r\<rparr>) = nxt s" "prv (s\<lparr>pages := r\<rparr>) = prv s"
  "avl (s\<lparr>pages := r\<rparr>) = avl s" "fhd (s\<lparr>pages := r\<rparr>) = fhd s"
  by (simp_all add: nxt_def prv_def avl_def fhd_def fun_eq_iff)

lemma cfg_ok_pages [simp]: "cfg_ok (s\<lparr>pages := r\<rparr>) = cfg_ok s"
  by (simp add: cfg_ok_def)

lemma pred_of_Cons_hd: "distinct (y # ys) \<Longrightarrow> x \<in> set ys \<Longrightarrow>
    pred_of (y # ys) x = (if x = hd ys then y else pred_of ys x)"
  by (cases ys) auto

lemma core_grow:
  assumes c: "core s lv xs" and p: "pages s = pg # rest"
  shows "\<exists>s1. grow s = Inr s1 \<and> core s1 lv (pg # xs) \<and> c_curr s1 = pg \<and> c_head s1 = pg \<and>
     pages s1 = rest \<and> c_elem s1 = c_elem s \<and> avl s1 = (avl s)(pg := c_elem s) \<and>
     nxt s1 pg = c_head s \<and> (c_head s \<noteq> 0 \<longrightarrow> prv s1 (c_head s) = pg)"
proof -
  have cf: "cfg_ok s" and wf: "wf_list s xs" and po: "pages_ok (pages s)"
    and dj: "set (pages s) \<inter> set xs = {}" and sub: "snd ` set lv \<subseteq> set xs"
    using c by (auto simp: core_def)
  have d: "distinct xs" and z: "0 \<notin> set xs" and hd: "c_head s = hd0 xs"
    and pt: "\<And>x. x \<in> set xs \<Longrightarrow> x \<in> dom (slabs s) \<and> nxt s x = succ_of xs x \<and> prv s x = pred_of xs x"
    using wf by (auto simp: wf_list_def)
  have al: "aligned pg" "pg \<noteq> 0" and nx: "pg \<notin> set xs" and pr: "pages_ok rest" "pg \<notin> set rest"
    using po dj p by (auto simp: pages_ok_def)
  have lv0: "live_in lv pg = {}" using sub nx by (force simp: live_in_def)
  let ?sp = "s\<lparr>pages := rest\<rparr>"
  define s0 where "s0 = Slab pg ?sp"
  have cfp: "cfg_ok ?sp" using cf by simp
  note S = Slab_ok [OF cfp al lv0, folded s0_def, simplified]
  have ns: "new_Slab s = Inr (pg, s0)" using p by (simp add: new_Slab_def s0_def)
  have dpg: "pg \<in> dom (slabs s0)" using S(7) by simp
  obtain s2 where s2: "(if c_head s0 \<noteq> 0 then set_prev (c_head s0) pg s0 else Inr s0) = Inr s2"
    "relinked s0 s2" "prv s2 = (if xs = [] then prv s0 else (prv s0)(hd xs := pg))" "nxt s2 = nxt s0"
    "c_head s2 = c_head s0"
  proof (cases "xs = []")
    case True
    then show ?thesis using that [of s0] hd S(5) by simp
  next
    case False
    then have h: "c_head s0 = hd xs" "hd xs \<in> set xs" "hd xs \<noteq> 0"
      using hd S(5) z by (cases xs; auto)+
    then have "c_head s0 \<in> dom (slabs s0)" using pt [of "hd xs"] S(7) by auto
    from set_prev_dom [OF this, of pg] show ?thesis using that h False by auto
  qed
  have "pg \<in> dom (slabs s2)" using dpg s2(2) by (simp add: relinked_def)
  from set_next_dom [OF this, of "c_head s2"] obtain s3 where
    s3: "set_next pg (c_head s2) s2 = Inr s3" "relinked s2 s3" "nxt s3 = (nxt s2)(pg := c_head s2)"
      "prv s3 = prv s2" by blast
  define s1 where "s1 = s3\<lparr>c_head := pg, c_curr := pg\<rparr>"
  have g: "grow s = Inr s1"
    using ns s2(1) s3(1) by (simp add: grow_def s1_def)
  have r: "relinked s0 s1" using relinked_trans [OF s2(2) s3(2)] by (simp add: s1_def)
  have e: "c_size s1 = c_size s" "c_buff s1 = c_buff s" "c_elem s1 = c_elem s" "pages s1 = rest"
    "avl s1 = (avl s)(pg := c_elem s)" "mem s1 = mem s0" "fhd s1 = fhd s0"
    "dom (slabs s1) = insert pg (dom (slabs s))"
    using r S by (simp_all add: relinked_def)
  have n1: "nxt s1 = (nxt s)(pg := hd0 xs)"
    using s2(4,5) S(5,8) hd by (simp add: s1_def s3 fun_eq_iff)
  have p1: "prv s1 = (if xs = [] then (prv s)(pg := 0) else (prv s)(pg := 0, hd xs := pg))"
    using S(9) by (simp add: s1_def s3 s2)
  have w1: "wf_list s1 (pg # xs)"
    unfolding wf_list_def
  proof (intro conjI ballI)
    fix x assume x: "x \<in> set (pg # xs)"
    show "x \<in> dom (slabs s1)" using x pt [of x] by (auto simp: e)
    show "nxt s1 x = succ_of (pg # xs) x" using x pt [of x] nx by (auto simp: n1)
    show "prv s1 x = pred_of (pg # xs) x"
    proof (cases "x = pg")
      case True
      then show ?thesis using nx by (auto simp: p1 pred_of_notin)
    next
      case False
      then have xs: "x \<in> set xs" using x by simp
      then have "xs \<noteq> []" by auto
      then show ?thesis
        using pt [OF xs] xs d nx False by (simp add: p1 pred_of_Cons_hd)
    qed
  qed (use d z nx al in \<open>auto simp: s1_def\<close>)
  have si: "slab_inv s1 lv a" if a: "a \<in> set (pg # xs)" for a
  proof (cases "a = pg")
    case True
    then show ?thesis using S(13) slab_inv_relinked [OF r] by simp
  next
    case False
    then have ax: "a \<in> set xs" using a by simp
    then have sa: "slab_inv s lv a" and ala: "aligned a" using c by (auto simp: core_def)
    have "slab_inv s0 lv a"
    proof (rule slab_inv_cong [OF sa])
      fix q assume "q \<in> bufs s a"
      then have "slab_of (q + c_size s) = a" by (rule bufs_link_slab_of [OF cf ala])
      then show "mem s0 (q + c_size s) = mem s (q + c_size s)" using False S(12) by simp
    qed (use S False in auto)
    then show ?thesis using slab_inv_relinked [OF r] by simp
  qed
  have us: "used s1 b = (if b = pg then 0 else used s b)" for b
    by (simp add: used_def e)
  have "sum (used s1) (set xs) = sum (used s) (set xs)"
    by (rule sum.cong) (use us nx in auto)
  then have sm: "sum (used s1) (set (pg # xs)) = length lv"
    using nx c us [of pg] by (simp add: core_def)
  have dj': "set rest \<inter> set xs = {}" using dj p by auto
  have "core s1 lv (pg # xs)"
    unfolding core_def
    using c w1 si sm pr al e(1-4) nx sub dj'
    by (auto simp: core_def cfg_ok_def pages_ok_def)
  moreover have "c_curr s1 = pg" "c_head s1 = pg" by (simp_all add: s1_def)
  moreover have "nxt s1 pg = c_head s" by (simp add: n1 hd)
  moreover have "c_head s \<noteq> 0 \<longrightarrow> prv s1 (c_head s) = pg"
    using hd by (cases xs) (auto simp: p1)
  ultimately show ?thesis using g e by blast
qed

section \<open>The order of the list and the cursor\<close>

lemma wf_list_curr [simp]: "wf_list (s\<lparr>c_curr := c\<rparr>) xs = wf_list s xs"
  by (simp add: wf_list_def)

lemma core_curr_imp: "core s lv xs \<Longrightarrow> core (s\<lparr>c_curr := c\<rparr>) lv xs"
proof -
  assume c: "core s lv xs"
  then have w: "wf_list (s\<lparr>c_curr := c\<rparr>) xs" by (simp add: core_def)
  show ?thesis by (rule core_relinked [OF c _ w]) simp_all
qed

lemma core_curr [simp]: "core (s\<lparr>c_curr := c\<rparr>) lv xs = core s lv xs"
  using core_curr_imp [of s lv xs c] core_curr_imp [of "s\<lparr>c_curr := c\<rparr>" lv xs "c_curr s"]
  by auto

lemma sorted_const: "(\<And>x. x \<in> set xs \<Longrightarrow> f x = (k::nat)) \<Longrightarrow> sorted (map f xs)"
  by (induction xs) auto

lemma rk_curr [simp]: "rk (s\<lparr>c_curr := c\<rparr>) = rk s"
  by (simp add: rk_def fun_eq_iff)

lemma pred_succ_mid:
  assumes "distinct (A @ c # B)"
  shows "pred_of (A @ c # B) c = last0 A" "succ_of (A @ c # B) c = hd0 B"
  using assms by (simp_all add: pred_of_append succ_of_append)

lemma rk_le2 [simp]: "rk s x \<le> 2"
  by (simp add: rk_def)

lemma rk_full: "c_elem s \<noteq> 0 \<Longrightarrow> avl s x = 0 \<longleftrightarrow> rk s x = 2"
  by (auto simp: rk_def)

lemma last0_nz: "0 \<notin> set A \<Longrightarrow> last0 A = 0 \<longleftrightarrow> A = []"
proof (cases "A = []")
  case True
  then show ?thesis by simp
next
  case False
  assume "0 \<notin> set A"
  moreover have "last A \<in> set A" using False by simp
  ultimately have "last A \<noteq> 0" by metis
  then show ?thesis using False by (simp add: last0_def)
qed

text \<open>The state in which \<open>alloc\<close> passes its assertions.\<close>

lemma alloc_enter_Inv:
  assumes c: "core s lv xs" and o: "ordered s xs" and pg: "c_curr s = 0 \<Longrightarrow> pages s \<noteq> []"
  shows "\<exists>s1 xs1. alloc_enter s = Inr s1 \<and> core s1 lv xs1 \<and> ordered s1 xs1 \<and> c_curr s1 \<noteq> 0 \<and>
     c_curr s1 \<in> set xs1 \<and>
     (if c_curr s = 0 then grow s = Inr s1 \<and> pages s = c_curr s1 # pages s1 else s1 = s)"
proof -
  have step: "\<exists>s1 xs1. (if c_curr s = 0 then grow s else Inr s) = Inr s1 \<and> core s1 lv xs1 \<and>
      ordered s1 xs1 \<and> c_curr s1 \<noteq> 0 \<and>
      (if c_curr s = 0 then grow s = Inr s1 \<and> pages s = c_curr s1 # pages s1 else s1 = s)"
  proof (cases "c_curr s = 0")
    case False
    then show ?thesis using c o by auto
  next
    case True
    obtain A F where AF: "xs = A @ F" "\<forall>x\<in>set F. avl s x = 0" "c_curr s = last0 A"
      using o by (auto simp: ordered_def)
    have z: "0 \<notin> set xs" using c by (simp add: core_def wf_list_def)
    then have "A = []" using AF(1,3) True last0_nz [of A] by auto
    then have fl: "\<forall>x\<in>set xs. avl s x = 0" using AF by simp
    obtain p rest where p: "pages s = p # rest" using pg [OF True] by (cases "pages s") auto
    from core_grow [OF c p] obtain s1 where
      s1: "grow s = Inr s1" "core s1 lv (p # xs)" "c_curr s1 = p" "pages s1 = rest"
        "c_elem s1 = c_elem s" "avl s1 = (avl s)(p := c_elem s)" by blast
    have pn: "p \<notin> set xs" "p \<noteq> 0" and e0: "c_elem s \<noteq> 0"
      using s1(2) by (auto simp: core_def wf_list_def cfg_ok_def s1(5))
    have r: "rk s1 p = 0" "\<And>x. x \<in> set xs \<Longrightarrow> rk s1 x = 2"
      using pn fl e0 by (auto simp: rk_def s1)
    have "sorted (map (rk s1) (p # xs))" using r sorted_const [of xs "rk s1" 2] by auto
    moreover have "\<forall>x\<in>set [p]. avl s1 x \<noteq> 0" "\<forall>x\<in>set xs. avl s1 x = 0"
      using pn fl e0 by (auto simp: s1)
    ultimately have "ordered s1 (p # xs)"
      unfolding ordered_def using s1(3)
      by (intro conjI exI [of _ "[p]"] exI [of _ xs]) (simp_all add: last0_def)
    then show ?thesis using True s1 p pn by auto
  qed
  then obtain s1 xs1 where s1: "(if c_curr s = 0 then grow s else Inr s) = Inr s1" "core s1 lv xs1"
      "ordered s1 xs1" "c_curr s1 \<noteq> 0"
      "if c_curr s = 0 then grow s = Inr s1 \<and> pages s = c_curr s1 # pages s1 else s1 = s" by blast
  obtain A F where AF: "xs1 = A @ F" "\<forall>x\<in>set A. avl s1 x \<noteq> 0" "\<forall>x\<in>set F. avl s1 x = 0"
      "c_curr s1 = last0 A"
    using s1(3) by (auto simp: ordered_def)
  have wf: "wf_list s1 xs1" using s1(2) by (simp add: core_def)
  have A: "A \<noteq> []" using AF(4) s1(4) by auto
  then have cA: "c_curr s1 = last A" "last A \<in> set A" using AF(4) by (simp_all add: last0_def)
  then have cx: "c_curr s1 \<in> set xs1" using AF(1) by simp
  have d: "distinct xs1" and z: "0 \<notin> set xs1"
    and pt: "\<And>x. x \<in> set xs1 \<Longrightarrow> x \<in> dom (slabs s1) \<and> nxt s1 x = succ_of xs1 x"
    using wf by (auto simp: wf_list_def)
  obtain sl where sl: "rd s1 (c_curr s1) = Inr sl" "s_next sl = nxt s1 (c_curr s1)"
      "s_avail sl = avl s1 (c_curr s1)"
    using rd_dom [of "c_curr s1" s1] pt [OF cx] by auto
  have nf: "\<not> full sl" using AF(2) cA sl by (simp add: full_def)
  have nx: "nxt s1 (c_curr s1) = hd0 F"
    using pt [OF cx] d cA A by (simp add: AF(1) succ_of_append succ_of_last)
  have ok: "(if s_next sl = 0 then Inr True else bindE (rd s1 (s_next sl)) (\<lambda>n. Inr (full n))) = Inr True"
  proof (cases F)
    case Nil
    then show ?thesis using nx sl by simp
  next
    case (Cons f F')
    then have f: "f \<in> set xs1" "f \<noteq> 0" "avl s1 f = 0" using AF z by auto
    obtain fl where "rd s1 f = Inr fl" "s_avail fl = avl s1 f"
      using rd_dom [of f s1] pt [OF f(1)] by auto
    then show ?thesis using nx sl Cons f by (simp add: full_def)
  qed
  have "alloc_enter s = Inr s1"
    using s1(1) sl nf ok by (simp add: alloc_enter_def)
  then show ?thesis using s1 cx by blast
qed

lemma sorted_map_upd:
  assumes s: "sorted (map f (A @ a # B))"
    and e: "\<And>x. x \<in> set A \<union> set B \<Longrightarrow> g x = f x"
    and l: "\<And>x. x \<in> set A \<Longrightarrow> f x \<le> g a" and u: "\<And>y. y \<in> set B \<Longrightarrow> g a \<le> f y"
  shows "sorted (map g (A @ a # B))"
proof -
  have m: "map g A = map f A" "map g B = map f B" by (rule map_cong [OF refl], simp add: e)+
  have "sorted (map f A)" "sorted (map f B)" "\<forall>x\<in>set A. \<forall>y\<in>set B. f x \<le> f y"
    using s by (auto simp: sorted_append)
  then show ?thesis using l u by (simp add: sorted_append m)
qed

lemma sorted_map_remove: "sorted (map f (A @ a # B)) \<Longrightarrow> sorted (map f (A @ B))"
  by (auto simp: sorted_append)

lemma sorted_map_insert:
  assumes "sorted (map (g::addr \<Rightarrow> nat) (A @ B))" "\<And>x. x \<in> set A \<Longrightarrow> g x \<le> g a"
    "\<And>y. y \<in> set B \<Longrightarrow> g a \<le> g y"
  shows "sorted (map g (A @ a # B))"
  using assms by (auto simp: sorted_append)

lemma sorted_map_cong:
  "sorted (map f xs) \<Longrightarrow> (\<And>x. x \<in> set xs \<Longrightarrow> g x = f x) \<Longrightarrow> sorted (map g xs)"
proof -
  assume s: "sorted (map f xs)" and e: "\<And>x. x \<in> set xs \<Longrightarrow> g x = f x"
  have "map g xs = map f xs" by (rule map_cong [OF refl], simp add: e)
  then show ?thesis using s by (simp only:)
qed

lemma alloc_Inv:
  assumes I: "Inv s lv" and pg: "c_curr s = 0 \<Longrightarrow> pages s \<noteq> []"
  shows "\<exists>s1 p s'. alloc_enter s = Inr s1 \<and> alloc s = Inr (p, s') \<and> Inv s' ((p, c_curr s1) # lv) \<and>
     slab_of p = c_curr s1 \<and> p \<notin> fst ` set lv \<and> p = fhd s1 (c_curr s1) - c_size s1 \<and>
     pages s' = pages s1 \<and>
     (if c_curr s = 0 then grow s = Inr s1 \<and> pages s = c_curr s1 # pages s1 else s1 = s)"
proof -
  obtain xs where "core s lv xs" "ordered s xs" using I by (auto simp: Inv_def)
  from alloc_enter_Inv [OF this pg] obtain s1 xs1 where
    s1: "alloc_enter s = Inr s1" "core s1 lv xs1" "ordered s1 xs1" "c_curr s1 \<noteq> 0" "c_curr s1 \<in> set xs1"
      "if c_curr s = 0 then grow s = Inr s1 \<and> pages s = c_curr s1 # pages s1 else s1 = s"
    by blast
  define a where "a = c_curr s1"
  obtain A F where AF: "xs1 = A @ F" "\<forall>x\<in>set A. avl s1 x \<noteq> 0" "\<forall>x\<in>set F. avl s1 x = 0"
      "c_curr s1 = last0 A" and srt: "sorted (map (rk s1) xs1)"
    using s1(3) by (auto simp: ordered_def)
  have A: "A \<noteq> []" using AF(4) s1(4) by auto
  then obtain A' where A': "A = A' @ [a]"
    using AF(4) by (metis a_def append_butlast_last_id last0_def)
  have ax: "a \<in> set xs1" and nf: "avl s1 a \<noteq> 0" using AF(1,2) A' by auto
  have wf: "wf_list s1 xs1" and cf: "cfg_ok s1" using s1(2) by (simp_all add: core_def)
  have d: "distinct xs1" and pt: "\<And>x. x \<in> set xs1 \<Longrightarrow> prv s1 x = pred_of xs1 x"
    using wf by (auto simp: wf_list_def)
  have e0: "c_elem s1 \<noteq> 0" using cf by (simp add: cfg_ok_def)
  from core_Slab_alloc [OF s1(2) ax nf] obtain p s2 where
    s2: "Slab_alloc a s1 = Inr (p, s2)" "touched a s1 s2" "avl s2 a = avl s1 a - 1"
      "p = fhd s1 a - c_size s1" "slab_of p = a" "p \<notin> fst ` set lv"
      "unat (avl s1 a) \<le> unat (c_elem s1)" "core s2 ((p, a) # lv) xs1" by blast
  have t: "c_curr s2 = a" "c_elem s2 = c_elem s1" "prv s2 = prv s1" "pages s2 = pages s1"
    "\<And>b. b \<noteq> a \<Longrightarrow> avl s2 b = avl s1 b"
    using s2(2) by (simp_all add: touched_def a_def)
  have "a \<in> dom (slabs s2)" using s2(8) ax by (simp add: core_def wf_list_def)
  then obtain c where c: "rd s2 a = Inr c" "s_avail c = avl s2 a" "s_prev c = prv s2 a"
    using rd_dom [of a s2] by auto
  have pa: "prv s2 a = last0 A'"
    using pt [OF ax] d by (simp add: t AF(1) A' pred_of_append)
  define s' where "s' = (if full c then s2\<lparr>c_curr := s_prev c\<rparr> else s2)"
  have al: "alloc s = Inr (p, s')"
    using s1(1) s2(1) c(1) by (simp add: alloc_def a_def [symmetric] t s'_def)
  have co: "core s' ((p, a) # lv) xs1" using s2(8) by (simp add: s'_def)
  have lt: "unat (avl s1 a - 1) < unat (c_elem s1)"
    using s2(7) nf by (simp add: unat_minus_one unat_gt_0 Suc_le_lessD)
  then have ne: "avl s2 a \<noteq> c_elem s1" using s2(3) by auto
  have r1: "rk s1 a \<le> 1" using nf by (simp add: rk_def)
  have r2: "1 \<le> rk s2 a" using ne by (simp add: rk_def t)
  have rs: "rk s' = rk s2" by (simp add: s'_def)
  have ro: "rk s2 x = rk s1 x" if "x \<noteq> a" for x using that by (simp add: rk_def t)
  have dA: "a \<notin> set A'" "a \<notin> set F" using d AF(1) A' by auto
  have srt': "sorted (map (rk s2) (A' @ a # F))"
  proof (rule sorted_map_upd [where f = "rk s1"])
    show "sorted (map (rk s1) (A' @ a # F))" using srt AF(1) A' by simp
    show "rk s2 x = rk s1 x" if "x \<in> set A' \<union> set F" for x
    proof -
      have "x \<noteq> a" using that dA by blast
      then show ?thesis by (rule ro)
    qed
    show "rk s1 x \<le> rk s2 a" if "x \<in> set A'" for x
    proof -
      have "rk s1 x \<le> rk s1 a" using srt that by (auto simp: AF(1) A' sorted_append)
      then show ?thesis using r1 r2 by simp
    qed
    show "rk s2 a \<le> rk s1 y" if "y \<in> set F" for y
      using AF(3) that e0 by (simp add: rk_def)
  qed
  have avo: "avl s2 x = avl s1 x" if "x \<in> set A' \<union> set F" for x
  proof -
    have "x \<noteq> a" using that dA by blast
    then show ?thesis by (rule t(5))
  qed
  have o: "ordered s' xs1"
  proof (cases "full c")
    case True
    have "\<forall>x\<in>set A'. avl s' x \<noteq> 0" "\<forall>x\<in>set (a # F). avl s' x = 0" "c_curr s' = last0 A'"
      using True AF(2,3) c pa avo by (auto simp: s'_def t(1-4) A' full_def)
    then show ?thesis
      unfolding ordered_def rs using srt'
      by (intro conjI exI [of _ A'] exI [of _ "a # F"]) (simp_all add: AF(1) A')
  next
    case False
    have "\<forall>x\<in>set A. avl s' x \<noteq> 0" "\<forall>x\<in>set F. avl s' x = 0" "c_curr s' = last0 A"
      using False AF(2,3,4) c avo by (auto simp: s'_def t(1-4) A' full_def)
    then show ?thesis
      unfolding ordered_def rs using srt'
      by (intro conjI exI [of _ A] exI [of _ F]) (simp_all add: AF(1) A')
  qed
  have "Inv s' ((p, a) # lv)" using co o by (auto simp: Inv_def)
  moreover have "pages s' = pages s1" by (simp add: s'_def t)
  ultimately show ?thesis using s1(1,6) al s2(4,5,6) by (auto simp: a_def)
qed

lemma wf_list_mid:
  assumes "wf_list s (X @ a # B)"
  shows "a \<in> dom (slabs s)" "a \<noteq> 0" "a \<notin> set (X @ B)" "prv s a = last0 X" "nxt s a = hd0 B"
    "X \<noteq> [] \<Longrightarrow> last X \<in> dom (slabs s) \<and> last X \<noteq> 0 \<and> last X \<noteq> a"
proof -
  have d: "distinct (X @ a # B)" and z: "0 \<notin> set (X @ a # B)"
    and pt: "\<And>x. x \<in> set (X @ a # B) \<Longrightarrow> x \<in> dom (slabs s) \<and> nxt s x = succ_of (X @ a # B) x
        \<and> prv s x = pred_of (X @ a # B) x"
    using assms by (auto simp: wf_list_def)
  show "a \<in> dom (slabs s)" "a \<noteq> 0" "a \<notin> set (X @ B)" using pt [of a] d z by auto
  show "prv s a = last0 X" "nxt s a = hd0 B" using pt [of a] pred_succ_mid [OF d] by simp_all
  show "last X \<in> dom (slabs s) \<and> last X \<noteq> 0 \<and> last X \<noteq> a" if "X \<noteq> []"
  proof -
    have "last X \<in> set X" using that by simp
    then show ?thesis using pt [of "last X"] d z by auto
  qed
qed

lemma prev_full_eval:
  assumes wf: "wf_list s (X @ a # B)"
  shows "prev_full a s = Inr (X \<noteq> [] \<and> avl s (last X) = 0)"
proof -
  note M = wf_list_mid [OF wf]
  obtain sl where sl: "rd s a = Inr sl" "s_prev sl = prv s a" using rd_dom [OF M(1)] by auto
  show ?thesis
  proof (cases "X = []")
    case True
    then show ?thesis using sl M(4) by (simp add: prev_full_def)
  next
    case False
    then obtain pl where "rd s (last X) = Inr pl" "s_avail pl = avl s (last X)"
      using rd_dom [of "last X" s] M(6) by auto
    then show ?thesis using sl M(4,6) False by (simp add: prev_full_def last0_def full_def)
  qed
qed

lemma prev_not_empty_eval:
  assumes wf: "wf_list s (X @ a # B)"
  shows "prev_not_empty a s = Inr (X \<noteq> [] \<and> avl s (last X) \<noteq> c_elem s)"
proof -
  note M = wf_list_mid [OF wf]
  obtain sl where sl: "rd s a = Inr sl" "s_prev sl = prv s a" using rd_dom [OF M(1)] by auto
  show ?thesis
  proof (cases "X = []")
    case True
    then show ?thesis using sl M(4) by (simp add: prev_not_empty_def)
  next
    case False
    then obtain pl where "rd s (last X) = Inr pl" "s_avail pl = avl s (last X)"
      using rd_dom [of "last X" s] M(6) by auto
    then show ?thesis using sl M(4,6) False by (simp add: prev_not_empty_def last0_def empty_slab_def)
  qed
qed

lemma requeue_full:
  assumes wf: "wf_list s (A @ F1 @ a # F2)" and c: "c_curr s = last0 A" and F1: "F1 \<noteq> []"
  shows "\<exists>s3. bindE (dequeue a s) (\<lambda>s2. if c_curr s2 \<noteq> 0 then enqueue_after_curr a s2
            else enqueue_as_head a s2) = Inr s3 \<and> relinked s s3 \<and> wf_list s3 (A @ a # F1 @ F2)"
proof -
  have wf': "wf_list s ((A @ F1) @ a # F2)" using wf by simp
  note M = wf_list_mid [OF wf']
  have "A @ F1 \<noteq> []" using F1 by simp
  from dequeue_wf [OF wf' this] obtain s2 where
    s2: "dequeue a s = Inr s2" "relinked s s2" "c_curr s2 = c_curr s" "wf_list s2 (A @ F1 @ F2)"
    by auto
  have a2: "a \<in> dom (slabs s2)" using M(1) s2(2) by (simp add: relinked_def)
  have z: "0 \<notin> set A" using wf by (simp add: wf_list_def)
  show ?thesis
  proof (cases "A = []")
    case True
    have ne: "F1 @ F2 \<noteq> []" using F1 by simp
    have w: "wf_list s2 (F1 @ F2)" using s2(4) True by simp
    have n: "a \<notin> set (F1 @ F2)" using M(3) by simp
    from enqueue_as_head_wf [OF w ne n M(2) a2] obtain s3 where
      "enqueue_as_head a s2 = Inr s3" "relinked s2 s3" "wf_list s3 (a # F1 @ F2)" by auto
    then show ?thesis using s2 c True relinked_trans by auto
  next
    case False
    then have cn: "c_curr s2 \<noteq> 0" "c_curr s2 = last A"
      using c s2(3) last0_nz [OF z] by (simp_all add: last0_def)
    have ne: "F1 @ F2 \<noteq> []" using F1 by simp
    have w: "wf_list s2 (A @ F1 @ F2)" using s2(4) by simp
    have n: "a \<notin> set (A @ F1 @ F2)" using M(3) by simp
    from enqueue_after_curr_wf [OF w False ne cn(2) n M(2) a2] obtain s3 where
      "enqueue_after_curr a s2 = Inr s3" "relinked s2 s3" "wf_list s3 (A @ a # F1 @ F2)" by auto
    then show ?thesis using s2 cn relinked_trans by auto
  qed
qed

lemma requeue_empty:
  assumes wf: "wf_list s (A1 @ a # B)" and A1: "A1 \<noteq> []"
  shows "\<exists>s'. bindE (dequeue a s) (enqueue_as_head a) = Inr s' \<and> relinked s s' \<and>
     wf_list s' (a # A1 @ B) \<and> c_curr s' = c_curr s"
proof -
  note M = wf_list_mid [OF wf]
  from dequeue_wf [OF wf A1] obtain s2 where
    s2: "dequeue a s = Inr s2" "relinked s s2" "c_curr s2 = c_curr s" "wf_list s2 (A1 @ B)"
    by auto
  have a2: "a \<in> dom (slabs s2)" using M(1) s2(2) by (simp add: relinked_def)
  have "A1 @ B \<noteq> []" using A1 by simp
  from enqueue_as_head_wf [OF s2(4) this M(3) M(2) a2] obtain s3 where
    "enqueue_as_head a s2 = Inr s3" "relinked s2 s3" "wf_list s3 (a # A1 @ B)" "c_curr s3 = c_curr s2"
    by auto
  then show ?thesis using s2 relinked_trans by auto
qed

lemma Slab_free_fhd: "Slab_free a p s = Inr s1 \<Longrightarrow> fhd s1 a = p + c_size s"
  by (auto simp: Slab_free_def rd_def bindE_def fhd_def Let_def split: option.splits)

lemma rk_relinked: "relinked s s' \<Longrightarrow> rk s' = rk s"
  by (simp add: rk_def relinked_def fun_eq_iff)

lemma last0_mid: "distinct (A1 @ a # A2) \<Longrightarrow> (a = last0 (A1 @ a # A2)) = (A2 = [])"
  by (cases "A2 = []") (auto simp: last0_def)

text \<open>Releasing into a FULL slab.\<close>

lemma free_full_Inv:
  assumes c1: "core s1 lv' xs" and o: "ordered s xs" and t: "touched a s s1"
    and ax: "a \<in> set xs" and was: "avl s a = 0" and now: "avl s1 a = avl s a + 1"
    and le: "\<And>x. x \<in> set xs \<Longrightarrow> unat (avl s x) \<le> unat (c_elem s)"
  shows "\<exists>s3. bindE (prev_full a s1) (\<lambda>requeue.
           bindE (if requeue then
                    bindE (dequeue a s1) (\<lambda>s2.
                    if c_curr s2 \<noteq> 0 then enqueue_after_curr a s2 else enqueue_as_head a s2)
                  else Inr s1) (\<lambda>s3. Inr (s3\<lparr>c_curr := a\<rparr>))) = Inr s3 \<and>
         relinked s1 s3 \<and> c_curr s3 = a \<and> Inv s3 lv'"
proof -
  obtain A F where AF: "xs = A @ F" "\<forall>x\<in>set A. avl s x \<noteq> 0" "\<forall>x\<in>set F. avl s x = 0"
      "c_curr s = last0 A" and srt: "sorted (map (rk s) xs)"
    using o by (auto simp: ordered_def)
  have "a \<in> set F" using ax was AF(1,2) by auto
  then obtain F1 F2 where F: "F = F1 @ a # F2" by (auto dest: split_list)
  have xs: "xs = A @ F1 @ a # F2" using AF(1) F by simp
  have wf: "wf_list s1 (A @ F1 @ a # F2)" and cf: "cfg_ok s1" using c1 by (simp_all add: core_def xs)
  have d: "distinct (A @ F1 @ a # F2)" using wf by (simp add: wf_list_def)
  have T: "c_curr s1 = c_curr s" "c_elem s1 = c_elem s" "\<And>b. b \<noteq> a \<Longrightarrow> avl s1 b = avl s b"
    using t by (simp_all add: touched_def)
  have e0: "c_elem s \<noteq> 0" using cf by (simp add: cfg_ok_def T)
  have oth: "avl s1 x = avl s x" "rk s1 x = rk s x" if "x \<in> set A \<union> set F1 \<union> set F2" for x
  proof -
    have "x \<noteq> a" using that d by auto
    then show "avl s1 x = avl s x" "rk s1 x = rk s x" using T by (simp_all add: rk_def)
  qed
  have wf': "wf_list s1 ((A @ F1) @ a # F2)" using wf by simp
  have pf: "prev_full a s1 = Inr (F1 \<noteq> [])"
  proof (cases "F1 = []")
    case True
    have "A \<noteq> [] \<Longrightarrow> avl s1 (last A) \<noteq> 0" using oth(1) [of "last A"] AF(2) by simp
    then show ?thesis using prev_full_eval [OF wf'] True by auto
  next
    case False
    then have "avl s1 (last F1) = 0" using oth(1) [of "last F1"] AF(3) F by simp
    then show ?thesis using prev_full_eval [OF wf'] False by simp
  qed
  have "\<exists>s3. (if F1 \<noteq> [] then
                    bindE (dequeue a s1) (\<lambda>s2.
                    if c_curr s2 \<noteq> 0 then enqueue_after_curr a s2 else enqueue_as_head a s2)
                  else Inr s1) = Inr s3 \<and> relinked s1 s3 \<and> wf_list s3 (A @ a # F1 @ F2)"
  proof (cases "F1 = []")
    case True
    have "wf_list s1 (A @ a # F1 @ F2)" using wf True by simp
    then show ?thesis using True by (intro exI [of _ s1]) simp
  next
    case False
    have cc: "c_curr s1 = last0 A" using AF(4) T(1) by simp
    from requeue_full [OF wf cc False] show ?thesis using False by simp
  qed
  then obtain s3 where s3: "(if F1 \<noteq> [] then
                    bindE (dequeue a s1) (\<lambda>s2.
                    if c_curr s2 \<noteq> 0 then enqueue_after_curr a s2 else enqueue_as_head a s2)
                  else Inr s1) = Inr s3" "relinked s1 s3" "wf_list s3 (A @ a # F1 @ F2)"
    by blast
  let ?s = "s3\<lparr>c_curr := a\<rparr>"
  have r: "relinked s1 ?s" using s3(2) by simp
  have co: "core ?s lv' (A @ a # F1 @ F2)"
    by (rule core_relinked [OF c1 r]) (use s3(3) xs in auto)
  have rk3: "rk ?s = rk s1" by (rule rk_relinked [OF r])
  have av3: "avl s3 = avl s1" using s3(2) by (simp add: relinked_def)
  have a1: "avl s1 a = 1" using now was by simp
  have ra: "rk s1 a \<le> 1" using a1 by (simp add: rk_def)
  have srt0: "sorted (map (rk s) (A @ F1 @ F2))"
    using sorted_map_remove [of "rk s" "A @ F1" a F2] srt xs by simp
  have srt1: "sorted (map (rk s1) (A @ F1 @ F2))"
    by (rule sorted_map_cong [OF srt0]) (use oth(2) in auto)
  have srt2: "sorted (map (rk s1) (A @ a # F1 @ F2))"
  proof (rule sorted_map_insert [OF srt1])
    fix x assume x: "x \<in> set A"
    have nz: "avl s x \<noteq> 0" using AF(2) x by simp
    show "rk s1 x \<le> rk s1 a"
    proof (cases "c_elem s = 1")
      case False
      then have "rk s1 a = 1" using a1 by (simp add: rk_def T)
      moreover have "rk s1 x \<le> 1" using nz oth [of x] x by (simp add: rk_def)
      ultimately show ?thesis by simp
    next
      case True
      have "unat (avl s x) \<le> 1" using le [of x] x xs True by simp
      moreover have "unat (avl s x) \<noteq> 0" using nz by (simp add: unat_eq_zero)
      ultimately have "unat (avl s x) = unat (1 :: mword)" by simp
      then have "avl s x = 1" by (simp only: word_unat_eq_iff)
      then show ?thesis using oth [of x] x True by (simp add: rk_def)
    qed
  next
    fix y assume "y \<in> set (F1 @ F2)"
    then have "rk s1 y = 2" using oth [of y] AF(3) F e0 by (auto simp: rk_def)
    then show "rk s1 a \<le> rk s1 y" using ra by simp
  qed
  have "\<forall>x\<in>set (A @ [a]). avl ?s x \<noteq> 0" "\<forall>x\<in>set (F1 @ F2). avl ?s x = 0"
    using AF(2,3) F a1 oth(1) by (auto simp: av3)
  then have "ordered ?s (A @ a # F1 @ F2)"
    unfolding ordered_def rk3 using srt2
    by (intro conjI exI [of _ "A @ [a]"] exI [of _ "F1 @ F2"]) simp_all
  then have "Inv ?s lv'" using co by (auto simp: Inv_def)
  then show ?thesis using pf s3(1) r by (intro exI [of _ ?s]) simp
qed

lemma sorted_map_last:
  "sorted (map (f::addr \<Rightarrow> nat) xs) \<Longrightarrow> x \<in> set xs \<Longrightarrow> f x \<le> f (last xs)"
proof (induction xs)
  case Nil
  then show ?case by simp
next
  case (Cons y ys)
  show ?case
  proof (cases "ys = []")
    case True
    then show ?thesis using Cons.prems by simp
  next
    case False
    then have "last ys \<in> set ys" by simp
    then show ?thesis using Cons False by auto
  qed
qed

text \<open>Releasing into a slab that is not FULL.\<close>

lemma free_partial_Inv:
  assumes c1: "core s1 lv' xs" and o: "ordered s xs" and t: "touched a s s1"
    and ax: "a \<in> set xs" and was: "avl s a \<noteq> 0" and now: "avl s1 a = avl s a + 1"
    and lt: "unat (avl s a) < unat (c_elem s)"
  shows "\<exists>s'. bindE (rd s1 a) (\<lambda>sl.
           if empty_slab s1 sl then
             bindE (prev_not_empty a s1) (\<lambda>requeue.
             if requeue then
               bindE (if a = c_curr s1 then Inr (s1\<lparr>c_curr := s_prev sl\<rparr>) else Inr s1) (\<lambda>s2.
               bindE (dequeue a s2) (\<lambda>s3.
               enqueue_as_head a s3))
             else Inr s1)
           else Inr s1) = Inr s' \<and> relinked s1 s' \<and> Inv s' lv'"
proof -
  obtain A F where AF: "xs = A @ F" "\<forall>x\<in>set A. avl s x \<noteq> 0" "\<forall>x\<in>set F. avl s x = 0"
      "c_curr s = last0 A" and srt: "sorted (map (rk s) xs)"
    using o by (auto simp: ordered_def)
  have "a \<in> set A" using ax was AF(1,3) by auto
  then obtain A1 A2 where A: "A = A1 @ a # A2" by (auto dest: split_list)
  have xs: "xs = A1 @ a # A2 @ F" using AF(1) A by simp
  have wf: "wf_list s1 (A1 @ a # A2 @ F)" and cf: "cfg_ok s1" using c1 by (simp_all add: core_def xs)
  have d: "distinct (A1 @ a # A2 @ F)" using wf by (simp add: wf_list_def)
  have T: "c_curr s1 = c_curr s" "c_elem s1 = c_elem s" "\<And>b. b \<noteq> a \<Longrightarrow> avl s1 b = avl s b"
    using t by (simp_all add: touched_def)
  have oth: "avl s1 x = avl s x" "rk s1 x = rk s x" if "x \<in> set A1 \<union> set A2 \<union> set F" for x
  proof -
    have "x \<noteq> a" using that d by auto
    then show "avl s1 x = avl s x" "rk s1 x = rk s x" using T by (simp_all add: rk_def)
  qed
  have "unat (avl s a) + 1 < 2 ^ 64"
    using lt unsigned_less [of "c_elem s", where ?'a = nat] by simp
  then have u1: "unat (avl s1 a) = unat (avl s a) + 1"
    by (simp add: now unat_add_lem [THEN iffD1])
  then have nz: "avl s1 a \<noteq> 0" by (auto simp: unat_eq_zero [symmetric])
  have "avl s a \<noteq> c_elem s" using lt by auto
  then have rka: "rk s a = 1" using was by (simp add: rk_def)
  note M = wf_list_mid [OF wf]
  obtain sl where sl: "rd s1 a = Inr sl" "s_avail sl = avl s1 a" "s_prev sl = last0 A1"
    using rd_dom [OF M(1)] M(4) by auto
  have nzA: "\<forall>x\<in>set A. avl s1 x \<noteq> 0" and zF: "\<forall>x\<in>set F. avl s1 x = 0"
    using AF(2,3) oth(1) nz by (auto simp: A)
  show ?thesis
  proof (cases "avl s1 a = c_elem s")
    case False
    then have "rk s1 a = 1" using nz by (simp add: rk_def T)
    then have "rk s1 x = rk s x" if "x \<in> set xs" for x
      using that oth(2) [of x] rka by (auto simp: xs)
    then have "sorted (map (rk s1) xs)" by (intro sorted_map_cong [OF srt]) simp
    then have "ordered s1 xs"
      unfolding ordered_def using nzA zF AF(1,4) T(1)
      by (intro conjI exI [of _ A] exI [of _ F]) simp_all
    then have "Inv s1 lv'" using c1 by (auto simp: Inv_def)
    then show ?thesis using sl False by (intro exI [of _ s1]) (simp add: empty_slab_def T)
  next
    case True
    then have rk1: "rk s1 a = 0" by (simp add: rk_def T)
    have pne: "prev_not_empty a s1 = Inr (A1 \<noteq> [] \<and> avl s (last A1) \<noteq> c_elem s)"
      using prev_not_empty_eval [OF wf] oth(1) [of "last A1"] by (auto simp: T)
    have srt0: "sorted (map (rk s) (A1 @ A2 @ F))"
      using sorted_map_remove [of "rk s" A1 a "A2 @ F"] srt xs by simp
    have srt1: "sorted (map (rk s1) (A1 @ A2 @ F))"
      by (rule sorted_map_cong [OF srt0]) (use oth(2) in auto)
    show ?thesis
    proof (cases "A1 \<noteq> [] \<and> avl s (last A1) \<noteq> c_elem s")
      case req: True
      define s2 where "s2 = (if a = c_curr s1 then s1\<lparr>c_curr := last0 A1\<rparr> else s1)"
      have r2: "relinked s1 s2" by (simp add: s2_def)
      have w2: "wf_list s2 (A1 @ a # A2 @ F)"
        using wf by (cases "a = c_curr s1") (simp_all add: s2_def)
      have dA: "distinct (A1 @ a # A2)" using d by auto
      have c2: "c_curr s2 = last0 (A1 @ A2)"
      proof (cases "A2 = []")
        case True
        then show ?thesis using last0_mid [OF dA] AF(4) T(1) A by (simp add: s2_def)
      next
        case False
        then have "a \<noteq> c_curr s1" using last0_mid [OF dA] AF(4) T(1) A by simp
        then show ?thesis using False AF(4) T(1) A by (simp add: s2_def last0_def)
      qed
      from requeue_empty [OF w2] req obtain s' where
        s': "bindE (dequeue a s2) (enqueue_as_head a) = Inr s'" "relinked s2 s'"
          "wf_list s' (a # A1 @ A2 @ F)" "c_curr s' = c_curr s2" by blast
      have r: "relinked s1 s'" using relinked_trans [OF r2 s'(2)] .
      have co: "core s' lv' (a # A1 @ A2 @ F)"
        by (rule core_relinked [OF c1 r s'(3)]) (use xs in auto)
      have rk3: "rk s' = rk s1" by (rule rk_relinked [OF r])
      have av3: "avl s' = avl s1" using r by (simp add: relinked_def)
      have "sorted (map (rk s1) (a # A1 @ A2 @ F))" using srt1 rk1 by simp
      moreover have "\<forall>x\<in>set (a # A1 @ A2). avl s' x \<noteq> 0" "\<forall>x\<in>set F. avl s' x = 0"
        using nzA zF by (auto simp: av3 A)
      moreover have "c_curr s' = last0 (a # A1 @ A2)"
        using s'(4) c2 req by (simp add: last0_Cons)
      ultimately have "ordered s' (a # A1 @ A2 @ F)"
        unfolding ordered_def rk3
        by (intro conjI exI [of _ "a # A1 @ A2"] exI [of _ F]) simp_all
      then have "Inv s' lv'" using co by (auto simp: Inv_def)
      moreover have "bindE (if a = c_curr s1 then Inr (s1\<lparr>c_curr := s_prev sl\<rparr>) else Inr s1)
          (\<lambda>s2. bindE (dequeue a s2) (\<lambda>s3. enqueue_as_head a s3)) = Inr s'"
        using s'(1) sl(3) by (cases "a = c_curr s1") (simp_all add: s2_def)
      ultimately show ?thesis
        using sl True pne req r by (intro exI [of _ s']) (simp add: empty_slab_def T)
    next
      case nreq: False
      have "sorted (map (rk s1) (A1 @ a # A2 @ F))"
      proof (rule sorted_map_upd [where f = "rk s"])
        show "sorted (map (rk s) (A1 @ a # A2 @ F))" using srt xs by simp
        show "rk s1 x = rk s x" if "x \<in> set A1 \<union> set (A2 @ F)" for x using oth(2) that by simp
        show "rk s x \<le> rk s1 a" if "x \<in> set A1" for x
        proof -
          have "A1 \<noteq> []" using that by auto
          then have "rk s (last A1) = 0" using nreq by (simp add: rk_def)
          moreover have "sorted (map (rk s) A1)" using srt xs by (simp add: sorted_append)
          ultimately show ?thesis using sorted_map_last [of "rk s" A1 x] that by simp
        qed
        show "rk s1 a \<le> rk s y" for y by (simp add: rk1)
      qed
      then have "ordered s1 xs"
        unfolding ordered_def using nzA zF AF(1,4) T(1) xs
        by (intro conjI exI [of _ A] exI [of _ F]) simp_all
      then have "Inv s1 lv'" using c1 by (auto simp: Inv_def)
      then show ?thesis
        using sl True pne nreq by (intro exI [of _ s1]) (auto simp: empty_slab_def T)
    qed
  qed
qed

section \<open>Calls preserve the invariant\<close>

lemma free_Inv:
  assumes I: "Inv s lv" and l: "(p, a) \<in> set lv"
  shows "\<exists>s'. free p s = Inr s' \<and> Inv s' (filter (\<lambda>e. fst e \<noteq> p) lv) \<and> pages s' = pages s \<and>
     c_size s' = c_size s \<and> fhd s' a = p + c_size s \<and> slab_of p = a \<and>
     (avl s a = 0 \<longrightarrow> c_curr s' = a)"
proof -
  let ?lv = "filter (\<lambda>e. fst e \<noteq> p) lv"
  obtain xs where c: "core s lv xs" and o: "ordered s xs" using I by (auto simp: Inv_def)
  note L = core_live [OF c l]
  from core_Slab_free [OF c l] obtain s1 where
    s1: "Slab_free a p s = Inr s1" "touched a s s1" "avl s1 a = avl s a + 1"
      "unat (avl s a) < unat (c_elem s)" "core s1 ?lv xs" by blast
  have f1: "fhd s1 a = p + c_size s" by (rule Slab_free_fhd [OF s1(1)])
  have T: "pages s1 = pages s" "c_size s1 = c_size s" using s1(2) by (simp_all add: touched_def)
  obtain sl0 where sl0: "rd s a = Inr sl0" "s_avail sl0 = avl s a" using rd_dom [OF L(7)] by auto
  have cf: "cfg_ok s" using c by (simp add: core_def)
  have le: "unat (avl s x) \<le> unat (c_elem s)" if "x \<in> set xs" for x
    using slab_inv_avl_le [OF cf, of lv x] c that by (simp add: core_def)
  have R: "relinked s1 s' \<Longrightarrow> pages s' = pages s \<and> c_size s' = c_size s \<and> fhd s' a = p + c_size s" for s'
    using T f1 by (simp add: relinked_def)
  show ?thesis
  proof (cases "avl s a = 0")
    case True
    from free_full_Inv [OF s1(5) o s1(2) L(1) True s1(3) le] obtain s3 where
      s3: "bindE (prev_full a s1) (\<lambda>requeue.
           bindE (if requeue then
                    bindE (dequeue a s1) (\<lambda>s2.
                    if c_curr s2 \<noteq> 0 then enqueue_after_curr a s2 else enqueue_as_head a s2)
                  else Inr s1) (\<lambda>s3. Inr (s3\<lparr>c_curr := a\<rparr>))) = Inr s3"
        "relinked s1 s3" "c_curr s3 = a" "Inv s3 ?lv" by blast
    have "free p s = Inr s3"
      using sl0 True s1(1) s3(1) L(4) by (simp add: free_def Let_def slab_of_def [symmetric] full_def)
    then show ?thesis using s3 R [OF s3(2)] L(4) by auto
  next
    case False
    from free_partial_Inv [OF s1(5) o s1(2) L(1) False s1(3,4)] obtain s' where
      s': "bindE (rd s1 a) (\<lambda>sl.
           if empty_slab s1 sl then
             bindE (prev_not_empty a s1) (\<lambda>requeue.
             if requeue then
               bindE (if a = c_curr s1 then Inr (s1\<lparr>c_curr := s_prev sl\<rparr>) else Inr s1) (\<lambda>s2.
               bindE (dequeue a s2) (\<lambda>s3.
               enqueue_as_head a s3))
             else Inr s1)
           else Inr s1) = Inr s'" "relinked s1 s'" "Inv s' ?lv" by blast
    have "free p s = Inr s'"
      using sl0 False s1(1) s'(1) L(4) by (simp add: free_def Let_def slab_of_def [symmetric] full_def)
    then show ?thesis using s' R [OF s'(2)] L(4) False by auto
  qed
qed

lemma alloc_enter_exhausted:
  "c_curr s = 0 \<Longrightarrow> pages s = [] \<Longrightarrow> alloc_enter s = Inl BackingMemoryExhausted"
  by (simp add: alloc_enter_def grow_def new_Slab_def)

lemma step_Inv:
  assumes I: "Inv s lv" and st: "step c (s, lv) = Inr (s', lv')"
  shows "Inv s' lv' \<and> length lv + n_alloc [c] = length lv' + n_release [c]"
proof (cases c)
  case Allocate
  have pg: "pages s \<noteq> []" if "c_curr s = 0"
  proof
    assume "pages s = []"
    then have "alloc_enter s = Inl BackingMemoryExhausted" using that by (simp add: alloc_enter_exhausted)
    then show False using st Allocate by (simp add: step_def)
  qed
  from alloc_Inv [OF I pg] obtain s1 p s2 where
    "alloc_enter s = Inr s1" "alloc s = Inr (p, s2)" "Inv s2 ((p, c_curr s1) # lv)" by blast
  then show ?thesis using st Allocate by (auto simp: step_def n_alloc_def n_release_def)
next
  case (Release p)
  have m: "p \<in> fst ` set lv" using st Release by (auto simp: step_def split: if_splits)
  then obtain a where a: "(p, a) \<in> set lv" by force
  from free_Inv [OF I a] obtain s2 where
    s2: "free p s = Inr s2" "Inv s2 (filter (\<lambda>e. fst e \<noteq> p) lv)" by blast
  have "distinct (map fst lv)" using I by (auto simp: Inv_def core_def)
  from length_filter_fst [OF this m] s2 show ?thesis
    using st Release m by (auto simp: step_def n_alloc_def n_release_def)
qed

lemma n_Cons: "n_alloc (c # cs) = n_alloc [c] + n_alloc cs" "n_release (c # cs) = n_release [c] + n_release cs"
  by (simp_all add: n_alloc_def n_release_def)

lemma run_Inv:
  "Inv s lv \<Longrightarrow> run cs (s, lv) = Inr (s', lv') \<Longrightarrow>
     Inv s' lv' \<and> length lv + n_alloc cs = length lv' + n_release cs"
proof (induction cs arbitrary: s lv)
  case Nil
  then show ?case by (simp add: n_alloc_def n_release_def)
next
  case (Cons c cs)
  from Cons.prems(2) obtain s1 lv1 where
    s1: "step c (s, lv) = Inr (s1, lv1)" "run cs (s1, lv1) = Inr (s', lv')"
    by (cases "step c (s, lv)") auto
  from step_Inv [OF Cons.prems(1) s1(1)]
  have a: "Inv s1 lv1" and b: "length lv + n_alloc [c] = length lv1 + n_release [c]" by simp_all
  from Cons.IH [OF a s1(2)]
  have c: "Inv s' lv'" and d: "length lv1 + n_alloc cs = length lv' + n_release cs" by simp_all
  show ?case using c b d unfolding n_Cons [of c cs] by linarith
qed

section \<open>Construction\<close>

lemma round_up_nat:
  fixes n a :: nat
  assumes "0 < a"
  shows "a dvd (n + a - 1) div a * a" "n \<le> (n + a - 1) div a * a" "(n + a - 1) div a * a < n + a"
proof -
  let ?m = "n + a - 1"
  have e: "?m div a * a = ?m - ?m mod a" by (simp add: minus_mod_eq_div_mult)
  have "?m mod a < a" using assms by simp
  then have "?m mod a \<le> a - 1" by simp
  then show "n \<le> ?m div a * a" unfolding e using assms by linarith
  show "a dvd ?m div a * a" by simp
  show "?m div a * a < n + a" unfolding e using assms by linarith
qed

lemma align_up_unat:
  assumes a: "a \<noteq> 0" and b: "unat v + unat a \<le> 2 ^ 63"
  shows "unat (align_up v a) = (unat v + unat a - 1) div unat a * unat a"
proof -
  have a0: "0 < unat a" using a by (simp add: unat_gt_0)
  have "unat (a - 1) = unat a - 1" using a by (simp add: unat_minus_one)
  moreover have "unat v + (unat a - 1) < 2 ^ 64" using b by simp
  ultimately have s: "unat (v + (a - 1)) = unat v + unat a - 1"
    using a0 by (simp add: unat_add_lem [THEN iffD1])
  have d: "unat ((v + (a - 1)) div a) = (unat v + unat a - 1) div unat a"
    by (simp add: unat_div s)
  have "(unat v + unat a - 1) div unat a * unat a \<le> unat v + unat a - 1" by simp
  also have "\<dots> < 2 ^ 64" using b by simp
  finally have "unat ((v + (a - 1)) div a) * unat a < 2 ^ 64" unfolding d .
  then have "unat ((v + (a - 1)) div a * a) = unat ((v + (a - 1)) div a) * unat a"
    by (simp add: unat_mult_lem [THEN iffD1])
  then show ?thesis by (simp add: align_up_def d)
qed

lemma ucast_32_64: "unat (ucast (x :: 32 word) :: 64 word) = unat x"
proof -
  have "unat x < 2 ^ 32" using unsigned_less [of x, where ?'a = nat] by simp
  then have "unat x < 2 ^ 64" by simp
  then show ?thesis by (simp add: unsigned_ucast_eq take_bit_nat_eq_self)
qed

lemma Slab_cache_ok:
  assumes a: "elem_align \<noteq> 0" and b: "unat elem_size + unat elem_align \<le> 2 ^ 62"
  shows "\<exists>s0. Slab_cache elem_size elem_align pgs = Inr s0 \<and> c_curr s0 = 0 \<and> c_head s0 = 0 \<and>
     slabs s0 = Map.empty \<and> pages s0 = pgs \<and>
     8 dvd unat (c_size s0) \<and> unat elem_size \<le> unat (c_size s0) \<and> unat (c_size s0) < unat elem_size + 8 \<and>
     unat elem_align dvd unat (c_buff s0) \<and> unat (c_size s0) + 8 \<le> unat (c_buff s0) \<and>
     unat (c_buff s0) < unat (c_size s0) + 8 + unat elem_align \<and>
     unat (c_elem s0) = 4056 div unat (c_buff s0)"
proof -
  define size where "size = align_up elem_size sizeof_mword"
  define buff where "buff = align_up (size + sizeof_mword) (ucast elem_align)"
  have w: "sizeof_mword \<noteq> 0" "unat sizeof_mword = 8" by (simp_all add: sizeof_mword_def)
  have "unat elem_size + unat sizeof_mword \<le> 2 ^ 63" using b by (simp add: w)
  from align_up_unat [OF w(1) this]
  have us: "unat size = (unat elem_size + 8 - 1) div 8 * 8" by (simp add: size_def w)
  have s1: "8 dvd unat size" "unat elem_size \<le> unat size" "unat size < unat elem_size + 8"
    unfolding us using round_up_nat [of 8 "unat elem_size"] by simp_all
  have ua: "unat (ucast elem_align :: mword) = unat elem_align" by (rule ucast_32_64)
  have a0: "0 < unat elem_align" using a by (simp add: unat_gt_0)
  then have a': "(ucast elem_align :: mword) \<noteq> 0" using ua by (metis unat_gt_0)
  have "unat size + 8 < 2 ^ 64" using s1(3) b by simp
  then have u8: "unat (size + sizeof_mword) = unat size + 8"
    using w by (simp add: unat_add_lem [THEN iffD1])
  have "unat (size + sizeof_mword) + unat (ucast elem_align :: mword) \<le> 2 ^ 63"
    using s1(3) b by (simp add: u8 ua)
  from align_up_unat [OF a' this]
  have ub: "unat buff = (unat size + 8 + unat elem_align - 1) div unat elem_align * unat elem_align"
    by (simp add: buff_def u8 ua)
  have b1: "unat elem_align dvd unat buff" "unat size + 8 \<le> unat buff"
      "unat buff < unat size + 8 + unat elem_align"
    unfolding ub using round_up_nat [OF a0, of "unat size + 8"] by simp_all
  then have bn: "buff \<noteq> 0" by auto
  have "unat ((PAGE_SIZE - sizeof_Slab) div buff) = 4056 div unat buff"
    by (simp add: unat_div PAGE_SIZE_def sizeof_Slab_def sizeof_mword_def)
  then show ?thesis
    using bn s1 b1
    by (simp add: Slab_cache_def Let_def size_def [symmetric] buff_def [symmetric])
qed

lemma Slab_cache_Inv:
  assumes f: "fits elem_size elem_align" and p: "pages_ok pgs"
  shows "\<exists>s0. Slab_cache elem_size elem_align pgs = Inr s0 \<and> Inv s0 [] \<and> pages s0 = pgs \<and>
    c_curr s0 = 0 \<and> c_head s0 = 0"
proof -
  have a: "elem_align \<noteq> 0" and b: "unat elem_size + unat elem_align \<le> 4042"
    using f by (simp_all add: fits_def)
  have "unat elem_size + unat elem_align \<le> 2 ^ 62" using b by simp
  from Slab_cache_ok [OF a this, of pgs] obtain s0 where
    s0: "Slab_cache elem_size elem_align pgs = Inr s0" "c_curr s0 = 0" "c_head s0 = 0"
      "slabs s0 = Map.empty" "pages s0 = pgs"
      "unat (c_size s0) < unat elem_size + 8" "unat (c_size s0) + 8 \<le> unat (c_buff s0)"
      "unat (c_buff s0) < unat (c_size s0) + 8 + unat elem_align"
      "unat (c_elem s0) = 4056 div unat (c_buff s0)" by blast
  have bl: "unat (c_buff s0) \<le> 4056" "0 < unat (c_buff s0)" using s0(6,7,8) b by simp_all
  then have "0 < 4056 div unat (c_buff s0)" by (simp add: div_greater_zero_iff)
  then have e0: "c_elem s0 \<noteq> 0" using s0(9) by (auto simp: unat_eq_zero [symmetric])
  have "unat (c_elem s0) * unat (c_buff s0) \<le> 4056" unfolding s0(9) by simp
  then have cf: "cfg_ok s0" using s0(7) e0 by (simp add: cfg_ok_def)
  have "core s0 [] []"
    using cf p s0 by (simp add: core_def wf_list_def)
  moreover have "ordered s0 []" using s0(2) by (simp add: ordered_def)
  ultimately show ?thesis using s0 by (auto simp: Inv_def)
qed

lemma session_Inv:
  assumes f: "fits elem_size elem_align" and p: "pages_ok pgs"
    and r: "session elem_size elem_align pgs cs = Inr (s, lv)"
  shows "Inv s lv" "length lv + n_release cs = n_alloc cs"
proof -
  from Slab_cache_Inv [OF f p] obtain s0 where
    s0: "Slab_cache elem_size elem_align pgs = Inr s0" "Inv s0 []" by blast
  then have "run cs (s0, []) = Inr (s, lv)" using r by (simp add: session_def)
  from run_Inv [OF s0(2) this] show "Inv s lv" "length lv + n_release cs = n_alloc cs" by simp_all
qed

section \<open>Snapshots of the list\<close>

lemma is_full_avl: "a \<in> dom (slabs s) \<Longrightarrow> is_full s a \<longleftrightarrow> avl s a = 0"
  by (auto simp: is_full_def avl_def full_def)

lemma is_empty_avl: "a \<in> dom (slabs s) \<Longrightarrow> is_empty s a \<longleftrightarrow> avl s a = c_elem s"
  by (auto simp: is_empty_def avl_def empty_slab_def)

lemma succ_of_Cons_other: "x \<noteq> y \<Longrightarrow> succ_of (y # ys) x = succ_of ys x"
  by simp

lemma scan_list:
  assumes "distinct xs" "0 \<notin> set xs"
    and "\<And>x. x \<in> set xs \<Longrightarrow> x \<in> dom (slabs s) \<and> nxt s x = succ_of xs x"
  shows "scan s (hd0 xs) acc = Some (Inr (acc @ xs))"
  using assms
proof (induction xs arbitrary: acc)
  case Nil
  then show ?case by (subst scan.simps) simp
next
  case (Cons y ys)
  have y: "y \<noteq> 0" "y \<in> dom (slabs s)" "nxt s y = hd0 ys" using Cons.prems(2) Cons.prems(3) [of y] by auto
  then obtain sl where sl: "slabs s y = Some sl" "s_next sl = hd0 ys" by (auto simp: nxt_def)
  have "scan s (hd0 ys) (acc @ [y]) = Some (Inr ((acc @ [y]) @ ys))"
  proof (rule Cons.IH)
    fix x assume x: "x \<in> set ys"
    then have "x \<noteq> y" using Cons.prems(1) by auto
    then show "x \<in> dom (slabs s) \<and> nxt s x = succ_of ys x" using Cons.prems(3) [of x] x by simp
  qed (use Cons.prems in auto)
  then show ?case using y sl by (subst scan.simps) simp
qed

lemma stats_list:
  assumes "distinct xs" "0 \<notin> set xs"
    and "\<And>x. x \<in> set xs \<Longrightarrow> x \<in> dom (slabs s) \<and> nxt s x = succ_of xs x \<and>
           unat (avl s x) \<le> unat (c_elem s)"
  shows "stats_loop s (hd0 xs) n objs =
     Some (Inr (n + of_nat (length xs), objs + of_nat (sum_list (map (used s) xs))))"
  using assms
proof (induction xs arbitrary: n objs)
  case Nil
  then show ?case by (subst stats_loop.simps) simp
next
  case (Cons y ys)
  have y: "y \<noteq> 0" "y \<in> dom (slabs s)" "nxt s y = hd0 ys" "unat (avl s y) \<le> unat (c_elem s)"
    using Cons.prems(2) Cons.prems(3) [of y] by auto
  then obtain sl where sl: "slabs s y = Some sl" "s_next sl = hd0 ys" "s_avail sl = avl s y"
    by (auto simp: nxt_def avl_def)
  have u: "c_elem s - avl s y = of_nat (used s y)"
    using y(4) by (simp add: used_def of_nat_diff)
  have "stats_loop s (hd0 ys) (n + 1) (objs + (c_elem s - avl s y)) =
      Some (Inr (n + 1 + of_nat (length ys), objs + (c_elem s - avl s y) + of_nat (sum_list (map (used s) ys))))"
  proof (rule Cons.IH)
    fix x assume x: "x \<in> set ys"
    then have "x \<noteq> y" using Cons.prems(1) by auto
    then show "x \<in> dom (slabs s) \<and> nxt s x = succ_of ys x \<and> unat (avl s x) \<le> unat (c_elem s)"
      using Cons.prems(3) [of x] x by simp
  qed (use Cons.prems in auto)
  then show ?case using y sl by (subst stats_loop.simps) (simp add: u algebra_simps)
qed

lemma sorted_dropWhile_zero:
  "sorted (map (f::addr \<Rightarrow> nat) xs) \<Longrightarrow> a \<in> set (dropWhile (\<lambda>x. f x = 0) xs) \<Longrightarrow> f a \<noteq> 0"
proof (induction xs)
  case Nil
  then show ?case by simp
next
  case (Cons y ys)
  show ?case
  proof (cases "f y = 0")
    case True
    then show ?thesis using Cons by simp
  next
    case False
    then have "a = y \<or> a \<in> set ys" using Cons.prems(2) by simp
    then show ?thesis using Cons.prems(1) False by auto
  qed
qed

text \<open>What the invariant says about a snapshot of the list.\<close>

lemma Inv_list:
  assumes I: "Inv s lv"
  obtains xs where "core s lv xs" "ordered s xs" "scan s (c_head s) [] = Some (Inr xs)"
    "print_stats s = Some (Inr (of_nat (length xs), of_nat (length lv)))"
    "sum_list (map (used s) xs) = length lv"
proof -
  obtain xs where c: "core s lv xs" and o: "ordered s xs" using I by (auto simp: Inv_def)
  have wf: "wf_list s xs" and cf: "cfg_ok s" using c by (simp_all add: core_def)
  have d: "distinct xs" "0 \<notin> set xs" "c_head s = hd0 xs"
    and pt: "\<And>x. x \<in> set xs \<Longrightarrow> x \<in> dom (slabs s) \<and> nxt s x = succ_of xs x"
    using wf by (auto simp: wf_list_def)
  have le: "unat (avl s x) \<le> unat (c_elem s)" if "x \<in> set xs" for x
    using slab_inv_avl_le [OF cf, of lv x] c that by (simp add: core_def)
  have sc: "scan s (c_head s) [] = Some (Inr xs)"
    using scan_list [OF d(1,2) pt, of "[]"] d(3) by simp
  have sm: "sum_list (map (used s) xs) = length lv"
    using c d(1) by (simp add: core_def sum_list_distinct_conv_sum_set)
  have "stats_loop s (hd0 xs) 0 0 =
     Some (Inr (0 + of_nat (length xs), 0 + of_nat (sum_list (map (used s) xs))))"
    by (rule stats_list [OF d(1,2)]) (use pt le in auto)
  then have "print_stats s = Some (Inr (of_nat (length xs), of_nat (length lv)))"
    by (simp add: print_stats_def d(3) sm)
  then show ?thesis using that c o sc sm by blast
qed

lemma aligned_bound:
  assumes "aligned a"
  shows "unat a + 4096 \<le> 2 ^ 64"
proof -
  have "a AND mask 12 = 0" using assms by (simp add: aligned_def PAGE_MASK_mask)
  then have "2 ^ 12 dvd unat a" by (simp only: and_mask_dvd_nat)
  then obtain k where k: "unat a = 4096 * k" by (auto simp: dvd_def)
  have "unat a < 2 ^ 64" using unsigned_less [of a, where ?'a = nat] by simp
  then have "k < 2 ^ 52" using k by simp
  then have "k + 1 \<le> 2 ^ 52" by simp
  then have "4096 * (k + 1) \<le> 4096 * 2 ^ 52" by (rule mult_le_mono2)
  then show ?thesis using k by simp
qed

lemma in_page:
  assumes a: "aligned a" and o: "off < 4096"
  shows "a \<le> a + of_nat off" "a + of_nat off - a < PAGE_SIZE"
proof -
  have u: "unat (of_nat off :: mword) = off" using o by (simp add: unat_of_nat)
  have "unat a + unat (of_nat off :: mword) < 2 ^ size a"
    using aligned_bound [OF a] o by (simp add: u word_size)
  then show "a \<le> a + of_nat off" by (simp only: no_plus_overflow_unat_size)
  show "a + of_nat off - a < PAGE_SIZE"
    using o by (simp add: PAGE_SIZE_def word_less_nat_alt u)
qed

lemma bufs_in_page:
  assumes c: "cfg_ok s" and a: "aligned a" and p: "p \<in> bufs s a"
  shows "a \<le> p" "p - a < PAGE_SIZE"
proof -
  obtain k where k: "k < unat (c_elem s)" "p = buf s a k" using p by (auto simp: bufs_def)
  define off where "off = 4096 - Suc k * unat (c_buff s)"
  have "0 < unat (c_buff s)" using c by (auto simp: cfg_ok_def)
  then have o: "p = a + of_nat off" "off < 4096"
    using buf_offset(1) [OF c k(1), of a] k(2) by (simp_all add: off_def)
  show "a \<le> p" "p - a < PAGE_SIZE" using in_page [OF a o(2)] o(1) by simp_all
qed

lemma Slab_allocs_ok:
  assumes "slab_inv s lv a" "a \<in> dom (slabs s)" "unat (avl s a) = n"
  shows "\<exists>ps s'. Slab_allocs n a s = Inr (ps, s') \<and> length ps = n \<and> a \<in> dom (slabs s') \<and>
     avl s' a = 0 \<and> fhd s' a = 0"
  using assms
proof (induction n arbitrary: s lv)
  case 0
  then obtain fp where "chain (mem s) (fhd s a) (map (\<lambda>p. p + c_size s) fp)" "length fp = 0"
    by (auto simp: slab_inv_def)
  then have "fhd s a = 0" by simp
  then show ?case using 0 by (simp add: unat_eq_zero)
next
  case (Suc n)
  have nz: "avl s a \<noteq> 0" using Suc.prems(3) by auto
  from Slab_alloc_ok [OF Suc.prems(1,2) nz] obtain p s1 where
    s1: "Slab_alloc a s = Inr (p, s1)" "touched a s s1" "avl s1 a = avl s a - 1"
      "slab_inv s1 ((p, a) # lv) a" by blast
  have d: "a \<in> dom (slabs s1)" using s1(2) Suc.prems(2) by (simp add: touched_def)
  have u: "unat (avl s1 a) = n" using Suc.prems(3) nz by (simp add: s1(3) unat_minus_one)
  from Suc.IH [OF s1(4) d u] obtain ps s' where
    "Slab_allocs n a s1 = Inr (ps, s')" "length ps = n" "a \<in> dom (slabs s')" "avl s' a = 0" "fhd s' a = 0"
    by blast
  then show ?case using s1(1) by simp
qed

lemma Inv_cursor:
  assumes I: "Inv s lv"
  shows "cursor_inv s_next s"
proof (cases "c_curr s = 0")
  case True
  then show ?thesis by (simp add: cursor_inv_def)
next
  case False
  obtain xs where c: "core s lv xs" and o: "ordered s xs" using I by (auto simp: Inv_def)
  obtain A F where AF: "xs = A @ F" "\<forall>x\<in>set A. avl s x \<noteq> 0" "\<forall>x\<in>set F. avl s x = 0"
      "c_curr s = last0 A"
    using o by (auto simp: ordered_def)
  have wf: "wf_list s xs" using c by (simp add: core_def)
  have A: "A \<noteq> []" using AF(4) False by auto
  then have cA: "c_curr s = last A" "last A \<in> set A" using AF(4) by (simp_all add: last0_def)
  then have cx: "c_curr s \<in> set xs" using AF(1) by simp
  have d: "distinct xs" and z: "0 \<notin> set xs"
    and pt: "\<And>x. x \<in> set xs \<Longrightarrow> x \<in> dom (slabs s) \<and> nxt s x = succ_of xs x"
    using wf by (auto simp: wf_list_def)
  obtain sl where sl: "slabs s (c_curr s) = Some sl" "s_next sl = nxt s (c_curr s)"
    using pt [OF cx] by (auto simp: nxt_def)
  have nf: "\<not> is_full s (c_curr s)" using AF(2) cA pt [OF cx] by (simp add: is_full_avl)
  have nx: "nxt s (c_curr s) = hd0 F"
    using pt [OF cx] d cA A by (simp add: AF(1) succ_of_append succ_of_last)
  have "s_next sl = 0 \<or> is_full s (s_next sl)"
  proof (cases F)
    case Nil
    then show ?thesis using nx sl by simp
  next
    case (Cons f F')
    then have f: "f \<in> set xs" "avl s f = 0" using AF by auto
    then show ?thesis using nx sl Cons pt [OF f(1)] by (simp add: is_full_avl)
  qed
  then show ?thesis using nf sl by (simp add: cursor_inv_def)
qed

lemma sessionE:
  assumes "\<not> isl (session es ea pgs cs)"
  obtains s lv where "session es ea pgs cs = Inr (s, lv)" "after es ea pgs cs = s" "live_after es ea pgs cs = lv"
  using assms by (cases "session es ea pgs cs") (auto simp: after_def live_after_def)

section \<open>The claims\<close>

text \<open>
  Claim C1 (as the code maintains it).  After every \<open>alloc\<close> and \<open>free\<close> call of a valid
  call sequence on a fresh cache has completed: if \<open>curr\<close> is not null, the slab it
  designates is not FULL, and if that slab has a neighbour on its tail side (\<open>curr->next\<close>,
  the direction away from \<open>head\<close>), that neighbour is FULL.  This is the condition that
  \<open>alloc\<close> asserts.
\<close>

theorem cursor_invariant:
  assumes "fits elem_size elem_align" "pages_ok pgs"
    and "session elem_size elem_align pgs cs = Inr (s, lv)"
  shows "cursor_inv s_next s"
  using session_Inv(1) [OF assms] by (rule Inv_cursor)

theorem cursor_invariant_witness:
  "fits 2000 8 \<and> pages_ok demo_pages \<and> \<not> isl (session 2000 8 demo_pages demo_calls) \<and>
   c_curr (after 2000 8 demo_pages demo_calls) = 0x30000 \<and>
   nxt (after 2000 8 demo_pages demo_calls) 0x30000 = 0x20000 \<and>
   cursor_inv s_next (after 2000 8 demo_pages demo_calls)"
proof -
  have h: "fits 2000 8" "pages_ok demo_pages" "\<not> isl (session 2000 8 demo_pages demo_calls)"
    "c_curr (after 2000 8 demo_pages demo_calls) = 0x30000"
    "nxt (after 2000 8 demo_pages demo_calls) 0x30000 = 0x20000"
    by code_simp+
  from h(3) obtain s lv where r: "session 2000 8 demo_pages demo_calls = Inr (s, lv)"
    "after 2000 8 demo_pages demo_calls = s" by (rule sessionE)
  from cursor_invariant [OF h(1,2) r(1)] show ?thesis using h r by simp
qed

text \<open>
  The neighbour on the head side is \<open>curr->prev\<close>, and it need not be FULL.  Capacity 2:
  after three allocations the list is a slab with one object, which is \<open>head\<close>, followed
  by a FULL slab.  Releasing an object of the second slab makes it \<open>curr\<close>; its head-side
  neighbour is \<open>head\<close> itself, which is not FULL.
\<close>

theorem cursor_head_side_counterexample:
  "fits 2000 8 \<and> pages_ok demo_pages \<and>
   \<not> isl (session 2000 8 demo_pages [Allocate, Allocate, Allocate, Release 0x10050]) \<and>
   c_head (after 2000 8 demo_pages [Allocate, Allocate, Allocate, Release 0x10050]) = 0x20000 \<and>
   c_curr (after 2000 8 demo_pages [Allocate, Allocate, Allocate, Release 0x10050]) = 0x10000 \<and>
   prv (after 2000 8 demo_pages [Allocate, Allocate, Allocate, Release 0x10050]) 0x10000 = 0x20000 \<and>
   \<not> is_full (after 2000 8 demo_pages [Allocate, Allocate, Allocate, Release 0x10050]) 0x20000 \<and>
   \<not> cursor_inv s_prev (after 2000 8 demo_pages [Allocate, Allocate, Allocate, Release 0x10050])"
  by code_simp

text \<open>
  Claim C2.  After any valid call sequence on a fresh cache, the sum over the slabs of the
  list of capacity minus free count equals the number of \<open>alloc\<close> calls minus the number of
  \<open>free\<close> calls; it is the object count that \<open>print_stats\<close> computes, and the traversal
  ends.
\<close>

theorem conservation:
  assumes "fits elem_size elem_align" "pages_ok pgs"
    and "session elem_size elem_align pgs cs = Inr (s, lv)"
  shows "\<exists>xs. scan s (c_head s) [] = Some (Inr xs) \<and>
     sum_list (map (\<lambda>a. unat (c_elem s) - unat (avl s a)) xs) + n_release cs = n_alloc cs \<and>
     print_stats s = Some (Inr (of_nat (length xs), of_nat (n_alloc cs - n_release cs)))"
proof -
  note S = session_Inv [OF assms]
  obtain xs where xs: "scan s (c_head s) [] = Some (Inr xs)"
      "print_stats s = Some (Inr (of_nat (length xs), of_nat (length lv)))"
      "sum_list (map (used s) xs) = length lv"
    using Inv_list [OF S(1)] by metis
  have "used s = (\<lambda>a. unat (c_elem s) - unat (avl s a))" by (simp add: used_def fun_eq_iff)
  moreover have "length lv = n_alloc cs - n_release cs" using S(2) by simp
  ultimately show ?thesis using xs S(2) by auto
qed

theorem conservation_witness:
  "fits 2000 8 \<and> pages_ok demo_pages \<and> \<not> isl (session 2000 8 demo_pages demo_calls) \<and>
   (\<exists>xs. scan (after 2000 8 demo_pages demo_calls) (c_head (after 2000 8 demo_pages demo_calls)) [] = Some (Inr xs) \<and>
      sum_list (map (\<lambda>a. unat (c_elem (after 2000 8 demo_pages demo_calls)) -
                          unat (avl (after 2000 8 demo_pages demo_calls) a)) xs) + 2 = 5 \<and>
      print_stats (after 2000 8 demo_pages demo_calls) = Some (Inr (of_nat (length xs), 3)))"
proof -
  have h: "fits 2000 8" "pages_ok demo_pages" "\<not> isl (session 2000 8 demo_pages demo_calls)"
    "n_alloc demo_calls = 5" "n_release demo_calls = 2"
    by code_simp+
  from h(3) obtain s lv where r: "session 2000 8 demo_pages demo_calls = Inr (s, lv)"
    "after 2000 8 demo_pages demo_calls = s" by (rule sessionE)
  from conservation [OF h(1,2) r(1)] show ?thesis using h r by simp
qed

text \<open>
  Claim C3 (as the code behaves).  Releasing a live pointer \<open>p\<close> succeeds, and the very
  next \<open>alloc\<close> returns exactly \<open>p\<close> whenever the slab that owns \<open>p\<close> was FULL before the
  release or is \<open>curr\<close> after it.
\<close>

theorem reuse_after_release:
  assumes "fits elem_size elem_align" "pages_ok pgs"
    and "session elem_size elem_align pgs cs = Inr (s, lv)"
    and "(p, a) \<in> set lv"
  shows "\<exists>s'. free p s = Inr s' \<and>
     (is_full s a \<or> c_curr s' = a \<longrightarrow> (\<exists>s''. alloc s' = Inr (p, s'')))"
proof -
  note I = session_Inv(1) [OF assms(1-3)]
  obtain xs where c: "core s lv xs" using I by (auto simp: Inv_def)
  note L = core_live [OF c assms(4)]
  from free_Inv [OF I assms(4)] obtain s' where
    s': "free p s = Inr s'" "Inv s' (filter (\<lambda>e. fst e \<noteq> p) lv)" "c_size s' = c_size s"
      "fhd s' a = p + c_size s" "avl s a = 0 \<longrightarrow> c_curr s' = a" by blast
  have "\<exists>s''. alloc s' = Inr (p, s'')" if "is_full s a \<or> c_curr s' = a"
  proof -
    have ca: "c_curr s' = a" using that s'(5) L(7) by (auto simp: is_full_avl)
    then have "c_curr s' = 0 \<Longrightarrow> pages s' \<noteq> []" using L(6) by simp
    from alloc_Inv [OF s'(2) this] obtain s1 q s2 where
      q: "alloc s' = Inr (q, s2)" "q = fhd s1 (c_curr s1) - c_size s1"
        "if c_curr s' = 0 then grow s' = Inr s1 \<and> pages s' = c_curr s1 # pages s1 else s1 = s'"
      by blast
    have "s1 = s'" using q(3) ca L(6) by simp
    then have "q = p" using q(2) ca s'(3,4) by simp
    then show ?thesis using q(1) by auto
  qed
  then show ?thesis using s'(1) by auto
qed

theorem reuse_after_release_witness:
  "fits 2000 8 \<and> pages_ok demo_pages \<and> \<not> isl (session 2000 8 demo_pages [Allocate, Allocate]) \<and>
   (0x10828, 0x10000) \<in> set (live_after 2000 8 demo_pages [Allocate, Allocate]) \<and>
   is_full (after 2000 8 demo_pages [Allocate, Allocate]) 0x10000 \<and>
   (\<exists>s'. free 0x10828 (after 2000 8 demo_pages [Allocate, Allocate]) = Inr s' \<and>
      (\<exists>s''. alloc s' = Inr (0x10828, s'')))"
proof -
  have h: "fits 2000 8" "pages_ok demo_pages" "\<not> isl (session 2000 8 demo_pages [Allocate, Allocate])"
    "(0x10828, 0x10000) \<in> set (live_after 2000 8 demo_pages [Allocate, Allocate])"
    "is_full (after 2000 8 demo_pages [Allocate, Allocate]) 0x10000"
    by code_simp+
  from h(3) obtain s lv where r: "session 2000 8 demo_pages [Allocate, Allocate] = Inr (s, lv)"
    "after 2000 8 demo_pages [Allocate, Allocate] = s"
    "live_after 2000 8 demo_pages [Allocate, Allocate] = lv" by (rule sessionE)
  have l: "(0x10828, 0x10000) \<in> set lv" using h(4) r(3) by simp
  from reuse_after_release [OF h(1,2) r(1) l] show ?thesis using h r by auto
qed

text \<open>
  Without that condition the next allocation is served by \<open>curr\<close>, which may be another
  slab.  Capacity 3: after four allocations, two releases into the first slab and one more
  allocation, the first slab is \<open>curr\<close> and holds the free buffer 0x101D8; the second slab
  holds the single object 0x201D8.  Releasing 0x201D8 leaves \<open>curr\<close> in place, and the next
  allocation returns 0x101D8.
\<close>

theorem reuse_after_release_counterexample:
  "fits 1200 8 \<and> pages_ok demo_pages \<and>
   \<not> isl (session 1200 8 demo_pages
     [Allocate, Allocate, Allocate, Allocate, Release 0x101D8, Release 0x10690, Allocate]) \<and>
   (0x201D8, 0x20000) \<in> set (live_after 1200 8 demo_pages
     [Allocate, Allocate, Allocate, Allocate, Release 0x101D8, Release 0x10690, Allocate]) \<and>
   \<not> isl (bindE (free 0x201D8 (after 1200 8 demo_pages
     [Allocate, Allocate, Allocate, Allocate, Release 0x101D8, Release 0x10690, Allocate])) alloc) \<and>
   fst (projr (bindE (free 0x201D8 (after 1200 8 demo_pages
     [Allocate, Allocate, Allocate, Allocate, Release 0x101D8, Release 0x10690, Allocate])) alloc)) = 0x101D8"
  by code_simp

text \<open>
  Claim C4.  In every state reached by a valid call sequence on a fresh cache, a scan of
  the list from the front finds the EMPTY slabs as a prefix: behind the first slab that is
  not EMPTY no slab is EMPTY, so every slab ahead of an EMPTY slab is EMPTY, and none is
  FULL.
\<close>

theorem empty_slabs_first:
  assumes "fits elem_size elem_align" "pages_ok pgs"
    and "session elem_size elem_align pgs cs = Inr (s, lv)"
  shows "\<exists>xs. scan s (c_head s) [] = Some (Inr xs) \<and>
     (\<forall>a\<in>set (dropWhile (is_empty s) xs). \<not> is_empty s a) \<and>
     (\<forall>i j. i < j \<and> j < length xs \<and> is_empty s (xs ! j) \<longrightarrow>
        is_empty s (xs ! i) \<and> \<not> is_full s (xs ! i))"
proof -
  note I = session_Inv(1) [OF assms]
  obtain xs where xs: "core s lv xs" "ordered s xs" "scan s (c_head s) [] = Some (Inr xs)"
    using Inv_list [OF I] by metis
  have d: "\<And>x. x \<in> set xs \<Longrightarrow> x \<in> dom (slabs s)" and e0: "c_elem s \<noteq> 0"
    using xs(1) by (auto simp: core_def wf_list_def cfg_ok_def)
  have srt: "sorted (map (rk s) xs)" using xs(2) by (simp add: ordered_def)
  have e: "is_empty s x \<longleftrightarrow> rk s x = 0" if "x \<in> set xs" for x
    using d [OF that] e0 by (auto simp: is_empty_avl rk_def)
  have dw: "dropWhile (is_empty s) xs = dropWhile (\<lambda>x. rk s x = 0) xs"
    by (rule dropWhile_cong) (use e in auto)
  have 1: "\<not> is_empty s a" if "a \<in> set (dropWhile (is_empty s) xs)" for a
  proof -
    have "a \<in> set xs" using that by (rule set_dropWhileD)
    then show ?thesis using sorted_dropWhile_zero [OF srt, of a] that e unfolding dw by simp
  qed
  have 2: "is_empty s (xs ! i) \<and> \<not> is_full s (xs ! i)"
    if "i < j \<and> j < length xs \<and> is_empty s (xs ! j)" for i j
  proof -
    have m: "xs ! i \<in> set xs" "xs ! j \<in> set xs" using that by simp_all
    have "map (rk s) xs ! i \<le> map (rk s) xs ! j"
      using srt that by (intro sorted_nth_mono) simp_all
    then have "rk s (xs ! i) \<le> rk s (xs ! j)" using that by simp
    then have "rk s (xs ! i) = 0" using that e [OF m(2)] by simp
    then have "is_empty s (xs ! i)" using e [OF m(1)] by simp
    then show ?thesis using d [OF m(1)] e0 by (auto simp: is_empty_avl is_full_avl)
  qed
  show ?thesis using xs(3) 1 2 by blast
qed

theorem empty_slabs_first_witness:
  "fits 2000 8 \<and> pages_ok demo_pages \<and> \<not> isl (session 2000 8 demo_pages demo_calls2) \<and>
   scan (after 2000 8 demo_pages demo_calls2) (c_head (after 2000 8 demo_pages demo_calls2)) [] =
     Some (Inr [0x20000, 0x10000, 0x30000]) \<and>
   is_empty (after 2000 8 demo_pages demo_calls2) 0x20000 \<and>
   is_empty (after 2000 8 demo_pages demo_calls2) 0x10000 \<and>
   \<not> is_empty (after 2000 8 demo_pages demo_calls2) 0x30000 \<and>
   \<not> is_full (after 2000 8 demo_pages demo_calls2) 0x20000"
proof -
  have h: "fits 2000 8" "pages_ok demo_pages" "\<not> isl (session 2000 8 demo_pages demo_calls2)"
    by code_simp+
  have v: "scan (after 2000 8 demo_pages demo_calls2) (c_head (after 2000 8 demo_pages demo_calls2)) [] =
       Some (Inr [0x20000, 0x10000, 0x30000])"
    "is_empty (after 2000 8 demo_pages demo_calls2) 0x20000"
    "is_empty (after 2000 8 demo_pages demo_calls2) 0x10000"
    "\<not> is_empty (after 2000 8 demo_pages demo_calls2) 0x30000"
    by code_simp+
  from h(3) obtain s lv where r: "session 2000 8 demo_pages demo_calls2 = Inr (s, lv)"
    "after 2000 8 demo_pages demo_calls2 = s" by (rule sessionE)
  from empty_slabs_first [OF h(1,2) r(1)] obtain xs where
    x: "scan s (c_head s) [] = Some (Inr xs)"
      "\<forall>a\<in>set (dropWhile (is_empty s) xs). \<not> is_empty s a"
      "\<forall>i j. i < j \<and> j < length xs \<and> is_empty s (xs ! j) \<longrightarrow>
         is_empty s (xs ! i) \<and> \<not> is_full s (xs ! i)"
    by blast
  have e: "xs = [0x20000, 0x10000, 0x30000]" using x(1) v(1) unfolding r(2) by simp
  have "(0::nat) < 1 \<and> 1 < length xs \<and> is_empty s (xs ! 1)" using v(3) unfolding r(2) e by simp
  then have "\<not> is_full s (xs ! 0)" using x(3) by blast
  then have b: "\<not> is_full s 0x20000" unfolding e by simp
  show ?thesis using h v b unfolding r(2) by simp
qed

text \<open>
  Claim C5.  Every live pointer lies in the page that starts at the address of the slab
  that served it, and clearing its page-offset bits, as \<open>free\<close> does, yields the address of
  that slab, which is a slab of the cache.
\<close>

theorem owner_recovery:
  assumes "fits elem_size elem_align" "pages_ok pgs"
    and "session elem_size elem_align pgs cs = Inr (s, lv)"
  shows "\<forall>(p, a) \<in> set lv. a \<in> dom (slabs s) \<and> a \<le> p \<and> p - a < PAGE_SIZE \<and>
     p AND NOT PAGE_MASK = a"
proof -
  note I = session_Inv(1) [OF assms]
  obtain xs where c: "core s lv xs" using I by (auto simp: Inv_def)
  have cf: "cfg_ok s" using c by (simp add: core_def)
  show ?thesis
  proof (clarify)
    fix p a assume l: "(p, a) \<in> set lv"
    note L = core_live [OF c l]
    show "a \<in> dom (slabs s) \<and> a \<le> p \<and> p - a < PAGE_SIZE \<and> p AND NOT PAGE_MASK = a"
      using L(4,7) bufs_in_page [OF cf L(5) L(3)] by (simp add: slab_of_def)
  qed
qed

theorem owner_recovery_witness:
  "fits 2000 8 \<and> pages_ok demo_pages \<and> \<not> isl (session 2000 8 demo_pages demo_calls) \<and>
   (0x20828, 0x20000) \<in> set (live_after 2000 8 demo_pages demo_calls) \<and>
   0x20000 \<in> dom (slabs (after 2000 8 demo_pages demo_calls)) \<and>
   (0x20000 :: addr) \<le> 0x20828 \<and> (0x20828 :: addr) - 0x20000 < PAGE_SIZE \<and>
   (0x20828 :: addr) AND NOT PAGE_MASK = 0x20000"
proof -
  have h: "fits 2000 8" "pages_ok demo_pages" "\<not> isl (session 2000 8 demo_pages demo_calls)"
    "(0x20828, 0x20000) \<in> set (live_after 2000 8 demo_pages demo_calls)"
    by code_simp+
  from h(3) obtain s lv where r: "session 2000 8 demo_pages demo_calls = Inr (s, lv)"
    "after 2000 8 demo_pages demo_calls = s" "live_after 2000 8 demo_pages demo_calls = lv"
    by (rule sessionE)
  have l: "(0x20828, 0x20000) \<in> set lv" using h(4) r(3) by simp
  from bspec [OF owner_recovery [OF h(1,2) r(1)] l]
  have "0x20000 \<in> dom (slabs s) \<and> (0x20000 :: addr) \<le> 0x20828 \<and>
      (0x20828 :: addr) - 0x20000 < PAGE_SIZE \<and> (0x20828 :: addr) AND NOT PAGE_MASK = 0x20000"
    by simp
  then show ?thesis using h r by simp
qed

text \<open>
  Claim C6.  A freshly constructed slab is EMPTY (its free count is the capacity).
  As many successive \<open>Slab::alloc\<close> calls as the capacity all succeed and leave it FULL;
  its free list is then empty, and one more call reads through a null \<open>head\<close>.
\<close>

theorem slab_capacity:
  assumes c: "cfg_ok s" and al: "aligned pg" "pg \<noteq> 0"
  shows "is_empty (Slab pg s) pg \<and>
     (\<exists>ps s'. Slab_allocs (unat (c_elem s)) pg (Slab pg s) = Inr (ps, s') \<and>
        length ps = unat (c_elem s) \<and> is_full s' pg \<and> Slab_alloc pg s' = Inl Fault)"
proof -
  have l: "live_in [] pg = {}" by (simp add: live_in_def)
  note S = Slab_ok [OF c al l]
  have d: "pg \<in> dom (slabs (Slab pg s))" using S(7) by simp
  have av: "avl (Slab pg s) pg = c_elem s" using S(10) by simp
  have 1: "is_empty (Slab pg s) pg" using d av S(3) by (simp add: is_empty_avl)
  from Slab_allocs_ok [OF S(13) d, of "unat (c_elem s)"] av obtain ps s' where
    r: "Slab_allocs (unat (c_elem s)) pg (Slab pg s) = Inr (ps, s')" "length ps = unat (c_elem s)"
      "pg \<in> dom (slabs s')" "avl s' pg = 0" "fhd s' pg = 0" by auto
  have "Slab_alloc pg s' = Inl Fault"
    using r(3,5) by (auto simp: Slab_alloc_def rd_def fhd_def)
  then show ?thesis using 1 r by (auto simp: is_full_avl)
qed

theorem slab_capacity_witness:
  "cfg_ok (after 2000 8 [] []) \<and> aligned 0x10000 \<and> (0x10000 :: addr) \<noteq> 0 \<and>
   unat (c_elem (after 2000 8 [] [])) = 2 \<and>
   is_empty (Slab 0x10000 (after 2000 8 [] [])) 0x10000 \<and>
   (\<exists>ps s'. Slab_allocs 2 0x10000 (Slab 0x10000 (after 2000 8 [] [])) = Inr (ps, s') \<and>
      length ps = 2 \<and> is_full s' 0x10000 \<and> Slab_alloc 0x10000 s' = Inl Fault)"
proof -
  have h: "cfg_ok (after 2000 8 [] [])" "aligned 0x10000" "(0x10000 :: addr) \<noteq> 0"
    "unat (c_elem (after 2000 8 [] [])) = 2"
    by code_simp+
  from slab_capacity [OF h(1,2,3)] show ?thesis using h by simp
qed

text \<open>
  Claim C7.  In every state reached by a valid call sequence on a fresh cache: if \<open>curr\<close> is
  not null, \<open>alloc\<close> succeeds and takes no page; if \<open>curr\<close> is null, \<open>alloc\<close> runs \<open>grow\<close>,
  which takes the next page of the provider, constructs a slab on it, makes it \<open>head\<close> and
  \<open>curr\<close> with the old head as its successor, and \<open>alloc\<close> then succeeds; \<open>alloc\<close> fails only
  when \<open>curr\<close> is null and the provider is exhausted; \<open>free\<close> of a live pointer takes no
  page.
\<close>

theorem grow_only_when_no_current:
  assumes "fits elem_size elem_align" "pages_ok pgs"
    and "session elem_size elem_align pgs cs = Inr (s, lv)"
  shows "(c_curr s \<noteq> 0 \<longrightarrow> (\<exists>p s'. alloc s = Inr (p, s') \<and> pages s' = pages s)) \<and>
     (c_curr s = 0 \<and> pages s = [] \<longrightarrow> alloc s = Inl BackingMemoryExhausted) \<and>
     (\<forall>pg rest. c_curr s = 0 \<and> pages s = pg # rest \<longrightarrow>
        (\<exists>s1 p s'. grow s = Inr s1 \<and> pg \<in> dom (slabs s1) \<and> c_head s1 = pg \<and> c_curr s1 = pg \<and>
           nxt s1 pg = c_head s \<and> (c_head s \<noteq> 0 \<longrightarrow> prv s1 (c_head s) = pg) \<and> pages s1 = rest \<and>
           alloc s = Inr (p, s') \<and> pages s' = rest)) \<and>
     (\<forall>p \<in> fst ` set lv. \<exists>s'. free p s = Inr s' \<and> pages s' = pages s)"
proof (intro conjI impI allI ballI)
  note I = session_Inv(1) [OF assms]
  {
    assume n: "c_curr s \<noteq> 0"
    then have "c_curr s = 0 \<Longrightarrow> pages s \<noteq> []" by simp
    from alloc_Inv [OF I this] obtain s1 p s' where
      "alloc s = Inr (p, s')" "pages s' = pages s1"
      "if c_curr s = 0 then grow s = Inr s1 \<and> pages s = c_curr s1 # pages s1 else s1 = s" by blast
    then show "\<exists>p s'. alloc s = Inr (p, s') \<and> pages s' = pages s" using n by auto
  next
    assume "c_curr s = 0 \<and> pages s = []"
    then show "alloc s = Inl BackingMemoryExhausted"
      by (simp add: alloc_def alloc_enter_exhausted)
  next
    fix pg rest assume a: "c_curr s = 0 \<and> pages s = pg # rest"
    then have "c_curr s = 0 \<Longrightarrow> pages s \<noteq> []" by simp
    from alloc_Inv [OF I this] obtain s1 p s' where
      r: "alloc s = Inr (p, s')" "pages s' = pages s1"
      "if c_curr s = 0 then grow s = Inr s1 \<and> pages s = c_curr s1 # pages s1 else s1 = s" by blast
    obtain xs where c: "core s lv xs" using I by (auto simp: Inv_def)
    from core_grow [OF c conjunct2 [OF a]] obtain s2 where
      g: "grow s = Inr s2" "core s2 lv (pg # xs)" "c_curr s2 = pg" "c_head s2 = pg" "pages s2 = rest"
        "nxt s2 pg = c_head s" "c_head s \<noteq> 0 \<longrightarrow> prv s2 (c_head s) = pg" by blast
    have "s1 = s2" using r(3) a g(1) by simp
    moreover have "pg \<in> dom (slabs s2)" using g(2) by (simp add: core_def wf_list_def)
    ultimately show "\<exists>s1 p s'. grow s = Inr s1 \<and> pg \<in> dom (slabs s1) \<and> c_head s1 = pg \<and> c_curr s1 = pg \<and>
           nxt s1 pg = c_head s \<and> (c_head s \<noteq> 0 \<longrightarrow> prv s1 (c_head s) = pg) \<and> pages s1 = rest \<and>
           alloc s = Inr (p, s') \<and> pages s' = rest"
      using g r by auto
  next
    fix p assume "p \<in> fst ` set lv"
    then obtain a where "(p, a) \<in> set lv" by force
    from free_Inv [OF I this] show "\<exists>s'. free p s = Inr s' \<and> pages s' = pages s" by blast
  }
qed

theorem grow_only_when_no_current_witness:
  "fits 2000 8 \<and> pages_ok demo_pages \<and> pages_ok [0x10000] \<and>
   \<not> isl (session 2000 8 demo_pages [Allocate]) \<and>
   \<not> isl (session 2000 8 [0x10000] [Allocate, Allocate]) \<and>
   \<not> isl (session 2000 8 demo_pages [Allocate, Allocate]) \<and>
   c_curr (after 2000 8 demo_pages [Allocate]) \<noteq> 0 \<and>
   (\<exists>p s'. alloc (after 2000 8 demo_pages [Allocate]) = Inr (p, s') \<and>
      pages s' = pages (after 2000 8 demo_pages [Allocate])) \<and>
   c_curr (after 2000 8 [0x10000] [Allocate, Allocate]) = 0 \<and>
   pages (after 2000 8 [0x10000] [Allocate, Allocate]) = [] \<and>
   alloc (after 2000 8 [0x10000] [Allocate, Allocate]) = Inl BackingMemoryExhausted \<and>
   c_curr (after 2000 8 demo_pages [Allocate, Allocate]) = 0 \<and>
   c_head (after 2000 8 demo_pages [Allocate, Allocate]) = 0x10000 \<and>
   pages (after 2000 8 demo_pages [Allocate, Allocate]) = [0x20000, 0x30000] \<and>
   (\<exists>s1 p s'. grow (after 2000 8 demo_pages [Allocate, Allocate]) = Inr s1 \<and>
      0x20000 \<in> dom (slabs s1) \<and> c_head s1 = 0x20000 \<and> c_curr s1 = 0x20000 \<and>
      nxt s1 0x20000 = 0x10000 \<and> prv s1 0x10000 = 0x20000 \<and> pages s1 = [0x30000] \<and>
      alloc (after 2000 8 demo_pages [Allocate, Allocate]) = Inr (p, s') \<and> pages s' = [0x30000]) \<and>
   0x10828 \<in> fst ` set (live_after 2000 8 demo_pages [Allocate, Allocate]) \<and>
   (\<exists>s'. free 0x10828 (after 2000 8 demo_pages [Allocate, Allocate]) = Inr s' \<and>
      pages s' = pages (after 2000 8 demo_pages [Allocate, Allocate]))"
proof -
  have h: "fits 2000 8" "pages_ok demo_pages" "pages_ok [0x10000]"
    "\<not> isl (session 2000 8 demo_pages [Allocate])"
    "\<not> isl (session 2000 8 [0x10000] [Allocate, Allocate])"
    "\<not> isl (session 2000 8 demo_pages [Allocate, Allocate])"
    by code_simp+
  have v: "c_curr (after 2000 8 demo_pages [Allocate]) \<noteq> 0"
    "c_curr (after 2000 8 [0x10000] [Allocate, Allocate]) = 0"
    "pages (after 2000 8 [0x10000] [Allocate, Allocate]) = []"
    "c_curr (after 2000 8 demo_pages [Allocate, Allocate]) = 0"
    "c_head (after 2000 8 demo_pages [Allocate, Allocate]) = 0x10000"
    "pages (after 2000 8 demo_pages [Allocate, Allocate]) = [0x20000, 0x30000]"
    "0x10828 \<in> fst ` set (live_after 2000 8 demo_pages [Allocate, Allocate])"
    by code_simp+
  from h(4) obtain s1 lv1 where r1: "session 2000 8 demo_pages [Allocate] = Inr (s1, lv1)"
    "after 2000 8 demo_pages [Allocate] = s1" by (rule sessionE)
  from h(5) obtain s2 lv2 where r2: "session 2000 8 [0x10000] [Allocate, Allocate] = Inr (s2, lv2)"
    "after 2000 8 [0x10000] [Allocate, Allocate] = s2" by (rule sessionE)
  from h(6) obtain s3 lv3 where r3: "session 2000 8 demo_pages [Allocate, Allocate] = Inr (s3, lv3)"
    "after 2000 8 demo_pages [Allocate, Allocate] = s3"
    "live_after 2000 8 demo_pages [Allocate, Allocate] = lv3" by (rule sessionE)
  note g1 = grow_only_when_no_current [OF h(1,2) r1(1)]
  note g2 = grow_only_when_no_current [OF h(1,3) r2(1)]
  note g3 = grow_only_when_no_current [OF h(1,2) r3(1)]
  have a: "\<exists>p s'. alloc s1 = Inr (p, s') \<and> pages s' = pages s1"
    using g1 v(1) r1(2) by blast
  have b: "alloc s2 = Inl BackingMemoryExhausted"
    using g2 v(2,3) r2(2) by blast
  have "c_curr s3 = 0 \<and> pages s3 = 0x20000 # [0x30000]" using v(4,6) r3(2) by simp
  with g3 have "\<exists>s1 p s'. grow s3 = Inr s1 \<and> 0x20000 \<in> dom (slabs s1) \<and> c_head s1 = 0x20000 \<and>
      c_curr s1 = 0x20000 \<and> nxt s1 0x20000 = c_head s3 \<and>
      (c_head s3 \<noteq> 0 \<longrightarrow> prv s1 (c_head s3) = 0x20000) \<and> pages s1 = [0x30000] \<and>
      alloc s3 = Inr (p, s') \<and> pages s' = [0x30000]" by blast
  then have c: "\<exists>s1 p s'. grow s3 = Inr s1 \<and> 0x20000 \<in> dom (slabs s1) \<and> c_head s1 = 0x20000 \<and>
      c_curr s1 = 0x20000 \<and> nxt s1 0x20000 = 0x10000 \<and> prv s1 0x10000 = 0x20000 \<and>
      pages s1 = [0x30000] \<and> alloc s3 = Inr (p, s') \<and> pages s' = [0x30000]"
    using v(5) r3(2) by auto
  have d: "\<exists>s'. free 0x10828 s3 = Inr s' \<and> pages s' = pages s3"
    using g3 v(7) r3(3) by blast
  show ?thesis using h v a b c d r1(2) r2(2) r3(2) by simp
qed

text \<open>
  Claim C8.  For a non-zero alignment (and sizes far from the end of the word range) the
  constructor succeeds; \<open>size\<close> is the least multiple of the word size 8 that is not below
  \<open>elem_size\<close>, \<open>buff\<close> the least multiple of \<open>elem_align\<close> that is not below \<open>size + 8\<close>, and
  \<open>elem\<close> is \<open>(4096 - 40) div buff\<close>, rounded down.
\<close>

theorem constructor_sizes:
  assumes "elem_align \<noteq> 0" "unat elem_size + unat elem_align \<le> 2 ^ 62"
  shows "\<exists>s0. Slab_cache elem_size elem_align pgs = Inr s0 \<and>
     8 dvd unat (c_size s0) \<and> unat elem_size \<le> unat (c_size s0) \<and> unat (c_size s0) < unat elem_size + 8 \<and>
     unat elem_align dvd unat (c_buff s0) \<and> unat (c_size s0) + 8 \<le> unat (c_buff s0) \<and>
     unat (c_buff s0) < unat (c_size s0) + 8 + unat elem_align \<and>
     unat (c_elem s0) = (4096 - 40) div unat (c_buff s0)"
  using Slab_cache_ok [OF assms, of pgs] by auto

theorem constructor_sizes_witness:
  "(8 :: 32 word) \<noteq> 0 \<and> unat (24 :: mword) + unat (8 :: 32 word) \<le> 2 ^ 62 \<and>
   (\<exists>s0. Slab_cache 24 8 [] = Inr s0 \<and>
     8 dvd unat (c_size s0) \<and> unat (24 :: mword) \<le> unat (c_size s0) \<and> unat (c_size s0) < unat (24 :: mword) + 8 \<and>
     unat (8 :: 32 word) dvd unat (c_buff s0) \<and> unat (c_size s0) + 8 \<le> unat (c_buff s0) \<and>
     unat (c_buff s0) < unat (c_size s0) + 8 + unat (8 :: 32 word) \<and>
     unat (c_elem s0) = (4096 - 40) div unat (c_buff s0)) \<and>
   c_size (after 24 8 [] []) = 24 \<and> c_buff (after 24 8 [] []) = 32 \<and> c_elem (after 24 8 [] []) = 126"
proof -
  have h: "(8 :: 32 word) \<noteq> 0" "unat (24 :: mword) + unat (8 :: 32 word) \<le> 2 ^ 62"
    by simp_all
  have v: "c_size (after 24 8 [] []) = 24 \<and> c_buff (after 24 8 [] []) = 32 \<and> c_elem (after 24 8 [] []) = 126"
    by code_simp
  from constructor_sizes [OF h, of "[]"] show ?thesis using h v by blast
qed

text \<open>
  Claim C9.  After any valid call sequence on a fresh cache the live pointers are pairwise
  different.
\<close>

theorem no_aliasing:
  assumes "fits elem_size elem_align" "pages_ok pgs"
    and "session elem_size elem_align pgs cs = Inr (s, lv)"
  shows "distinct (map fst lv)"
  using session_Inv(1) [OF assms] by (auto simp: Inv_def core_def)

theorem no_aliasing_witness:
  "fits 2000 8 \<and> pages_ok demo_pages \<and> \<not> isl (session 2000 8 demo_pages demo_calls) \<and>
   length (live_after 2000 8 demo_pages demo_calls) = 3 \<and>
   distinct (map fst (live_after 2000 8 demo_pages demo_calls))"
proof -
  have h: "fits 2000 8" "pages_ok demo_pages" "\<not> isl (session 2000 8 demo_pages demo_calls)"
    "length (live_after 2000 8 demo_pages demo_calls) = 3"
    by code_simp+
  from h(3) obtain s lv where r: "session 2000 8 demo_pages demo_calls = Inr (s, lv)"
    "live_after 2000 8 demo_pages demo_calls = lv" by (rule sessionE)
  from no_aliasing [OF h(1,2) r(1)] show ?thesis using h r by simp
qed

text \<open>
  Claim C10.  In every state reached by a valid call sequence on a fresh cache, \<open>free\<close> of a
  live pointer runs to completion: none of its accesses goes through a null pointer.
  In particular \<open>head\<close> is not null, and where the requeue of a FULL slab finds \<open>curr\<close> not
  null, \<open>curr->next\<close> is a slab.
\<close>

theorem release_never_faults:
  assumes "fits elem_size elem_align" "pages_ok pgs"
    and "session elem_size elem_align pgs cs = Inr (s, lv)"
    and "(p, a) \<in> set lv"
  shows "(\<exists>s'. free p s = Inr s') \<and> c_head s \<noteq> 0 \<and>
     (is_full s a \<and> prv s a \<noteq> 0 \<and> is_full s (prv s a) \<and> c_curr s \<noteq> 0 \<longrightarrow>
        nxt s (c_curr s) \<noteq> 0 \<and> nxt s (c_curr s) \<in> dom (slabs s))"
proof -
  note I = session_Inv(1) [OF assms(1-3)]
  obtain xs where c: "core s lv xs" and o: "ordered s xs" using I by (auto simp: Inv_def)
  note L = core_live [OF c assms(4)]
  have wf: "wf_list s xs" using c by (simp add: core_def)
  have d: "distinct xs" and z: "0 \<notin> set xs" and hd: "c_head s = hd0 xs"
    and pt: "\<And>x. x \<in> set xs \<Longrightarrow> x \<in> dom (slabs s) \<and> nxt s x = succ_of xs x \<and> prv s x = pred_of xs x"
    using wf by (auto simp: wf_list_def)
  have 1: "\<exists>s'. free p s = Inr s'" using free_Inv [OF I assms(4)] by blast
  have 2: "c_head s \<noteq> 0" using hd L(1) z by (cases xs) auto
  have 3: "nxt s (c_curr s) \<noteq> 0 \<and> nxt s (c_curr s) \<in> dom (slabs s)"
    if t: "is_full s a \<and> prv s a \<noteq> 0 \<and> is_full s (prv s a) \<and> c_curr s \<noteq> 0"
  proof -
    obtain A F where AF: "xs = A @ F" "\<forall>x\<in>set A. avl s x \<noteq> 0" "\<forall>x\<in>set F. avl s x = 0"
        "c_curr s = last0 A"
      using o by (auto simp: ordered_def)
    have A: "A \<noteq> []" using AF(4) t by auto
    then have cA: "c_curr s = last A" "last A \<in> set A" using AF(4) by (simp_all add: last0_def)
    have "avl s a = 0" using t L(7) by (simp add: is_full_avl)
    then have "a \<in> set F" using L(1) AF(1,2) by auto
    then have F: "F \<noteq> []" by auto
    have "nxt s (c_curr s) = hd0 F"
      using pt [of "c_curr s"] d cA A by (simp add: AF(1) succ_of_append succ_of_last)
    moreover have "hd0 F \<in> set xs" using F AF(1) by (cases F) auto
    ultimately show ?thesis using pt [of "hd0 F"] z by auto
  qed
  show ?thesis using 1 2 3 by blast
qed

theorem release_never_faults_witness:
  "fits 2000 8 \<and> pages_ok demo_pages \<and> \<not> isl (session 2000 8 demo_pages (take 5 demo_calls)) \<and>
   (0x10050, 0x10000) \<in> set (live_after 2000 8 demo_pages (take 5 demo_calls)) \<and>
   is_full (after 2000 8 demo_pages (take 5 demo_calls)) 0x10000 \<and>
   prv (after 2000 8 demo_pages (take 5 demo_calls)) 0x10000 = 0x20000 \<and>
   is_full (after 2000 8 demo_pages (take 5 demo_calls)) 0x20000 \<and>
   c_curr (after 2000 8 demo_pages (take 5 demo_calls)) = 0x30000 \<and>
   (\<exists>s'. free 0x10050 (after 2000 8 demo_pages (take 5 demo_calls)) = Inr s') \<and>
   c_head (after 2000 8 demo_pages (take 5 demo_calls)) \<noteq> 0 \<and>
   nxt (after 2000 8 demo_pages (take 5 demo_calls)) 0x30000 \<noteq> 0"
proof -
  have h: "fits 2000 8" "pages_ok demo_pages" "\<not> isl (session 2000 8 demo_pages (take 5 demo_calls))"
    "(0x10050, 0x10000) \<in> set (live_after 2000 8 demo_pages (take 5 demo_calls))"
    "is_full (after 2000 8 demo_pages (take 5 demo_calls)) 0x10000"
    "prv (after 2000 8 demo_pages (take 5 demo_calls)) 0x10000 = 0x20000"
    "is_full (after 2000 8 demo_pages (take 5 demo_calls)) 0x20000"
    "c_curr (after 2000 8 demo_pages (take 5 demo_calls)) = 0x30000"
    by code_simp+
  from h(3) obtain s lv where r: "session 2000 8 demo_pages (take 5 demo_calls) = Inr (s, lv)"
    "after 2000 8 demo_pages (take 5 demo_calls) = s"
    "live_after 2000 8 demo_pages (take 5 demo_calls) = lv" by (rule sessionE)
  have l: "(0x10050, 0x10000) \<in> set lv" using h(4) r(3) by simp
  have t: "is_full s 0x10000 \<and> prv s 0x10000 \<noteq> 0 \<and> is_full s (prv s 0x10000) \<and> c_curr s \<noteq> 0"
    using h(5-8) r(2) by simp
  from release_never_faults [OF h(1,2) r(1) l] t show ?thesis using h r by simp
qed

end
